theory Spec2Isabelle
  imports Main "HOL-Library.Sublist" "HOL-Library.List_Lexorder" "HOL-Library.Char_ord"
begin

section \<open>Python values used by the pipeline\<close>

text \<open>
  Python strings are modelled as HOL strings (lists of characters); \<open>len\<close> is
  \<open>length\<close>. Python integers are unbounded and modelled as \<open>int\<close>.
  A \<open>ValueError\<close> raised by the source is the left injection of a sum type.
\<close>

datatype error = ValueError string

text \<open>Decimal rendering of an integer, as \<open>str(n)\<close> / an f-string field does.\<close>

definition digit_char :: "nat \<Rightarrow> char" where
  "digit_char d = char_of (48 + d)"

function str_nat :: "nat \<Rightarrow> string" where
  "str_nat n = (if n < 10 then [digit_char n] else str_nat (n div 10) @ [digit_char (n mod 10)])"
  by pat_completeness auto
termination
  by (relation "measure (\<lambda>n. n)") auto

declare str_nat.simps [simp del]

definition str_int :: "int \<Rightarrow> string" where
  "str_int i = (if i < 0 then CHR ''-'' # str_nat (nat (- i)) else str_nat (nat i))"

text \<open>Python's \<open>a or b\<close> on values that are \<open>None\<close> or an integer: \<open>None\<close> and \<open>0\<close> are falsy.\<close>

definition py_or :: "int option \<Rightarrow> int option \<Rightarrow> int option" where
  "py_or a b = (case a of None \<Rightarrow> b | Some v \<Rightarrow> (if v = 0 then b else Some v))"

section \<open>pipeline/chunker.py\<close>

type_synonym page = "int \<times> string"

text \<open>A chunk is the tuple \<open>(text, page_start, page_end)\<close>. The page fields hold whatever
  the loop variables \<open>start_p\<close> and \<open>end_p\<close> hold, which start as \<open>None\<close>.\<close>

type_synonym chunk = "string \<times> int option \<times> int option"

definition nl :: char where
  "nl = CHR 0x0A"

text \<open>\<open>part = f"\n[p.{pnum}]\n{text}\n"\<close>\<close>

definition part_of :: "page \<Rightarrow> string" where
  "part_of p = nl # ''[p.'' @ str_int (fst p) @ '']'' @ nl # snd p @ [nl]"

text \<open>\<open>joined[-overlap:] if overlap else ""\<close>. A negative start index beyond the
  beginning of the string yields the whole string.\<close>

definition tail_of :: "string \<Rightarrow> int \<Rightarrow> string" where
  "tail_of joined overlap =
     (if overlap = 0 then [] else drop (length joined - nat overlap) joined)"

record loop_state =
  chunks :: "chunk list"
  buf :: "string list"
  start_p :: "int option"
  end_p :: "int option"
  size_acc :: nat

text \<open>One iteration of the \<open>for pnum, text in pages\<close> loop.\<close>

definition chunk_step :: "int \<Rightarrow> int \<Rightarrow> loop_state \<Rightarrow> page \<Rightarrow> loop_state" where
  "chunk_step max_chars overlap s p =
     (let pnum = fst p;
          part = part_of p;
          part_len = length part;
          s1 = (if buf s = [] then s\<lparr>start_p := Some pnum\<rparr> else s);
          s2 = (if int (size_acc s1 + part_len) > max_chars \<and> buf s1 \<noteq> [] then
                  (let joined = concat (buf s1);
                       tail = tail_of joined overlap
                   in s1\<lparr>chunks := chunks s1 @ [(joined, start_p s1, py_or (end_p s1) (start_p s1))],
                          buf := (if tail \<noteq> [] then [tail] else []),
                          size_acc := length tail,
                          start_p := (if tail = [] then Some pnum else start_p s1)\<rparr>)
                else s1)
      in s2\<lparr>buf := buf s2 @ [part],
             size_acc := size_acc s2 + part_len,
             end_p := Some pnum\<rparr>)"

definition init_state :: loop_state where
  "init_state = \<lparr>chunks = [], buf = [], start_p = None, end_p = None, size_acc = 0\<rparr>"

definition chunk_loop :: "int \<Rightarrow> int \<Rightarrow> loop_state \<Rightarrow> page list \<Rightarrow> loop_state" where
  "chunk_loop max_chars overlap s pages = foldl (chunk_step max_chars overlap) s pages"

text \<open>The code after the loop: a non-empty buffer is emitted as the last chunk.\<close>

definition finish :: "loop_state \<Rightarrow> chunk list" where
  "finish s =
     (if buf s \<noteq> [] then
        chunks s @ [(concat (buf s),
                     py_or (start_p s) (Some 1),
                     py_or (end_p s) (py_or (start_p s) (Some 1)))]
      else chunks s)"

definition chunk_pages :: "page list \<Rightarrow> int \<Rightarrow> int \<Rightarrow> error + chunk list" where
  "chunk_pages pages max_chars overlap =
     (if max_chars \<le> 1000 then Inl (ValueError ''max_chars too small; recommend >= 3000'')
      else if overlap < 0 \<or> overlap \<ge> max_chars then
        Inl (ValueError ''overlap must be >=0 and < max_chars'')
      else Inr (finish (chunk_loop max_chars overlap init_state pages)))"

section \<open>Characters, string methods and regular expressions of the Python runtime\<close>

text \<open>
  A character of the model stands for the code point with the same number, so the modelled
  texts are those over the code points 0 to 255. On this range the character classes of
  the runtime are the following finite tables (\<open>str.isspace\<close> and \<open>\s\<close>, \<open>\d\<close>, \<open>\w\<close>,
  the line boundaries of \<open>str.splitlines\<close>, \<open>str.lower\<close>).
\<close>

definition code_point :: "char \<Rightarrow> nat" where
  "code_point c = of_char c"

definition is_space :: "char \<Rightarrow> bool" where
  "is_space c \<longleftrightarrow> code_point c \<in> set [9, 10, 11, 12, 13, 28, 29, 30, 31, 32, 133, 160]"

definition is_digit :: "char \<Rightarrow> bool" where
  "is_digit c \<longleftrightarrow> 48 \<le> code_point c \<and> code_point c \<le> 57"

definition is_upper_az :: "char \<Rightarrow> bool" where
  "is_upper_az c \<longleftrightarrow> 65 \<le> code_point c \<and> code_point c \<le> 90"

definition is_lower_az :: "char \<Rightarrow> bool" where
  "is_lower_az c \<longleftrightarrow> 97 \<le> code_point c \<and> code_point c \<le> 122"

definition is_word :: "char \<Rightarrow> bool" where
  "is_word c \<longleftrightarrow> is_digit c \<or> is_upper_az c \<or> is_lower_az c \<or> c = CHR ''_'' \<or>
     code_point c \<in> set [170, 178, 179, 181, 185, 186, 188, 189, 190] \<or>
     (192 \<le> code_point c \<and> code_point c \<noteq> 215 \<and> code_point c \<noteq> 247)"

definition is_linebreak :: "char \<Rightarrow> bool" where
  "is_linebreak c \<longleftrightarrow> code_point c \<in> set [10, 11, 12, 13, 28, 29, 30, 133]"

definition not_newline :: "char \<Rightarrow> bool" where
  "not_newline c \<longleftrightarrow> c \<noteq> nl"

definition one_of :: "string \<Rightarrow> char \<Rightarrow> bool" where
  "one_of cs c \<longleftrightarrow> c \<in> set cs"

definition lower_char :: "char \<Rightarrow> char" where
  "lower_char c =
     (if is_upper_az c \<or> (192 \<le> code_point c \<and> code_point c \<le> 222 \<and> code_point c \<noteq> 215)
      then char_of (code_point c + 32) else c)"

definition py_lower :: "string \<Rightarrow> string" where
  "py_lower s = map lower_char s"

definition py_strip :: "string \<Rightarrow> string" where
  "py_strip s = rev (dropWhile is_space (rev (dropWhile is_space s)))"

text \<open>\<open>s.rstrip(chars)\<close>: every trailing character that occurs in \<open>chars\<close> is removed.\<close>

definition py_rstrip :: "string \<Rightarrow> string \<Rightarrow> string" where
  "py_rstrip chars s = rev (dropWhile (one_of chars) (rev s))"

text \<open>\<open>k in text\<close> on strings: \<open>k\<close> occurs as a contiguous substring.\<close>

fun py_in :: "string \<Rightarrow> string \<Rightarrow> bool" where
  "py_in k [] = (k = [])"
| "py_in k (c # cs) = (prefix k (c # cs) \<or> py_in k cs)"

text \<open>\<open>str.splitlines()\<close>: \<open>\r\n\<close> is one boundary; a final boundary opens no further line.\<close>

fun splitlines_from :: "string \<Rightarrow> string \<Rightarrow> string list" where
  "splitlines_from cur [] = (if cur = [] then [] else [rev cur])"
| "splitlines_from cur (c # cs) =
     (if c = CHR 0x0D \<and> cs \<noteq> [] \<and> hd cs = nl then rev cur # splitlines_from [] (tl cs)
      else if is_linebreak c then rev cur # splitlines_from [] cs
      else splitlines_from (c # cur) cs)"

definition py_splitlines :: "string \<Rightarrow> string list" where
  "py_splitlines s = splitlines_from [] s"

text \<open>\<open>s.replace(old, new)\<close>: the occurrences of \<open>old\<close> are replaced from left to right
  without overlap; an empty \<open>old\<close> matches between all characters.\<close>

function py_replace :: "string \<Rightarrow> string \<Rightarrow> string \<Rightarrow> string" where
  "py_replace old new s =
     (if old = [] then new @ concat (map (\<lambda>c. c # new) s)
      else if s = [] then []
      else if prefix old s then new @ py_replace old new (drop (length old) s)
      else hd s # py_replace old new (tl s))"
  by pat_completeness auto
termination
  by (relation "measure (\<lambda>(old, new, s). length s)") auto

declare py_replace.simps [simp del]

subsection \<open>Backtracking regular expressions\<close>

text \<open>
  A position in a text is the pair of the reversed text before it and the text after it.
  A pattern maps a start position to the end positions of its matches there, in the order
  in which the backtracking matcher of the runtime tries them: the head of the list is
  the match the runtime reports.
\<close>

type_synonym pos = "string \<times> string"
type_synonym rx = "pos \<Rightarrow> pos list"

definition rx_class :: "(char \<Rightarrow> bool) \<Rightarrow> rx" where
  "rx_class P p = (case snd p of [] \<Rightarrow> [] | c # cs \<Rightarrow> if P c then [(c # fst p, cs)] else [])"

definition rx_chr :: "char \<Rightarrow> rx" where
  "rx_chr c = rx_class (\<lambda>d. d = c)"

definition rx_eps :: rx where
  "rx_eps p = [p]"

definition rx_seq :: "rx \<Rightarrow> rx \<Rightarrow> rx" where
  "rx_seq r1 r2 p = concat (map r2 (r1 p))"

definition rx_alt :: "rx \<Rightarrow> rx \<Rightarrow> rx" where
  "rx_alt r1 r2 p = r1 p @ r2 p"

definition rx_assert :: "(pos \<Rightarrow> bool) \<Rightarrow> rx" where
  "rx_assert c p = (if c p then [p] else [])"

text \<open>Greedy \<open>P*\<close> for a character class: the longest run first, then shorter ones.\<close>

fun star_greedy :: "(char \<Rightarrow> bool) \<Rightarrow> string \<Rightarrow> string \<Rightarrow> pos list" where
  "star_greedy P b [] = [(b, [])]"
| "star_greedy P b (c # cs) =
     (if P c then star_greedy P (c # b) cs @ [(b, c # cs)] else [(b, c # cs)])"

text \<open>Lazy \<open>P*?\<close>: the shortest run first.\<close>

fun star_lazy :: "(char \<Rightarrow> bool) \<Rightarrow> string \<Rightarrow> string \<Rightarrow> pos list" where
  "star_lazy P b [] = [(b, [])]"
| "star_lazy P b (c # cs) =
     (b, c # cs) # (if P c then star_lazy P (c # b) cs else [])"

definition rx_star :: "(char \<Rightarrow> bool) \<Rightarrow> rx" where
  "rx_star P p = star_greedy P (fst p) (snd p)"

definition rx_plus :: "(char \<Rightarrow> bool) \<Rightarrow> rx" where
  "rx_plus P = rx_seq (rx_class P) (rx_star P)"

definition rx_plus_lazy :: "(char \<Rightarrow> bool) \<Rightarrow> rx" where
  "rx_plus_lazy P = rx_seq (rx_class P) (\<lambda>p. star_lazy P (fst p) (snd p))"

text \<open>\<open>P{1,3}\<close>, greedy.\<close>

definition rx_1to3 :: "(char \<Rightarrow> bool) \<Rightarrow> rx" where
  "rx_1to3 P =
     rx_seq (rx_class P) (rx_alt (rx_seq (rx_class P) (rx_alt (rx_class P) rx_eps)) rx_eps)"

text \<open>\<open>$\<close> without the multi-line flag: at the end, or before a newline that ends the text.\<close>

definition at_end :: "pos \<Rightarrow> bool" where
  "at_end p \<longleftrightarrow> snd p = [] \<or> snd p = [nl]"

text \<open>\<open>\b\<close>: exactly one of the two neighbouring characters is a word character.\<close>

definition word_boundary :: "pos \<Rightarrow> bool" where
  "word_boundary p \<longleftrightarrow>
     (case fst p of [] \<Rightarrow> False | c # _ \<Rightarrow> is_word c) \<noteq>
     (case snd p of [] \<Rightarrow> False | c # _ \<Rightarrow> is_word c)"

text \<open>A look-behind for a sequence of character classes, given in reading order.\<close>

definition behind :: "(char \<Rightarrow> bool) list \<Rightarrow> pos \<Rightarrow> bool" where
  "behind cls p \<longleftrightarrow>
     length cls \<le> length (fst p) \<and>
     list_all2 (\<lambda>P c. P c) (rev cls) (take (length cls) (fst p))"

text \<open>All positions of a text, from left to right.\<close>

fun positions_from :: "string \<Rightarrow> string \<Rightarrow> pos list" where
  "positions_from b [] = [(b, [])]"
| "positions_from b (c # cs) = (b, c # cs) # positions_from (c # b) cs"

text \<open>\<open>re.search(r, s)\<close> as a truth value.\<close>

definition re_search :: "rx \<Rightarrow> string \<Rightarrow> bool" where
  "re_search r s = list_ex (\<lambda>p. r p \<noteq> []) (positions_from [] s)"

text \<open>
  The scan shared by \<open>re.findall\<close>, \<open>re.split\<close> and \<open>re.sub\<close>: the text is cut into the
  matches found from left to right without overlap, each with the unmatched text before
  it, and the unmatched rest. Every pattern of this program consumes at least one
  character; a match that consumes none is passed over.
\<close>

definition push_char :: "char \<Rightarrow> (string \<times> string) list \<times> string \<Rightarrow> (string \<times> string) list \<times> string" where
  "push_char c r =
     (case fst r of [] \<Rightarrow> ([], c # snd r) | (u, m) # ms \<Rightarrow> ((c # u, m) # ms, snd r))"

function scan :: "rx \<Rightarrow> string \<Rightarrow> string \<Rightarrow> (string \<times> string) list \<times> string" where
  "scan r b s =
     (if s = [] then ([], [])
      else (case r (b, s) of
              [] \<Rightarrow> push_char (hd s) (scan r (hd s # b) (tl s))
            | e # _ \<Rightarrow>
                if length (snd e) < length s then
                  (let rest = scan r (fst e) (snd e)
                   in (([], take (length s - length (snd e)) s) # fst rest, snd rest))
                else push_char (hd s) (scan r (hd s # b) (tl s))))"
  by pat_completeness auto
termination
  by (relation "measure (\<lambda>(r, b, s). length s)") auto

declare scan.simps [simp del]

definition re_findall :: "rx \<Rightarrow> string \<Rightarrow> string list" where
  "re_findall r s = map snd (fst (scan r [] s))"

definition re_split :: "rx \<Rightarrow> string \<Rightarrow> string list" where
  "re_split r s = (let sc = scan r [] s in map fst (fst sc) @ [snd sc])"

definition re_sub :: "rx \<Rightarrow> string \<Rightarrow> string \<Rightarrow> string" where
  "re_sub r repl s = (let sc = scan r [] s in concat (map (\<lambda>um. fst um @ repl) (fst sc)) @ snd sc)"

text \<open>\<open>re.match\<close> of a pattern \<open>pre (?P<pt> grp) post\<close> at the start of \<open>s\<close>: the text of
  the group in the first match found, if any.\<close>

definition match_group :: "rx \<Rightarrow> rx \<Rightarrow> rx \<Rightarrow> string \<Rightarrow> string option" where
  "match_group pre grp post s =
     (case concat (map (\<lambda>ps. concat (map (\<lambda>pe. if post pe \<noteq> [] then [(ps, pe)] else []) (grp ps)))
                       (pre ([], s))) of
        [] \<Rightarrow> None
      | (ps, pe) # _ \<Rightarrow> Some (take (length (snd ps) - length (snd pe)) (snd ps)))"

text \<open>Python's stable sort. With \<open>reverse=True\<close> the list is reversed, sorted and reversed
  again, so that elements with equal keys keep their order.\<close>

definition py_sort :: "('a \<Rightarrow> 'k::linorder) \<Rightarrow> 'a list \<Rightarrow> 'a list" where
  "py_sort key xs = sort_key key xs"

definition py_sort_reverse :: "('a \<Rightarrow> 'k::linorder) \<Rightarrow> 'a list \<Rightarrow> 'a list" where
  "py_sort_reverse key xs = rev (sort_key key (rev xs))"

section \<open>pipeline/summariser.py\<close>

text \<open>\<open>_format_prompt\<close>: three literal substitutions, one after the other.\<close>

definition format_prompt :: "string \<Rightarrow> string \<Rightarrow> int \<Rightarrow> int \<Rightarrow> string" where
  "format_prompt template text start_page end_page =
     py_replace ''{{END_PAGE}}'' (str_int end_page)
       (py_replace ''{{START_PAGE}}'' (str_int start_page)
         (py_replace ''{{TEXT}}'' text template))"

text \<open>
  \<open>_BULLET_LINE\<close> is \<open>^\s*(?:[-*]|\d{1,3}[.)])\s+(?P<pt>.+?)\s*$\<close>; the two further
  markers of the source's character class, the en dash and the bullet glyph, lie outside
  the modelled alphabet. The pattern has no letters, so the ignore-case flag has no effect.
\<close>

definition bullet_pre :: rx where
  "bullet_pre =
     rx_seq (rx_star is_space)
       (rx_seq (rx_alt (rx_class (one_of ''-*''))
                       (rx_seq (rx_1to3 is_digit) (rx_class (one_of ''.)''))))
               (rx_plus is_space))"

definition bullet_pt :: rx where
  "bullet_pt = rx_plus_lazy not_newline"

definition bullet_post :: rx where
  "bullet_post = rx_seq (rx_star is_space) (rx_assert at_end)"

text \<open>\<open>\s+\<close>\<close>

definition rx_spaces :: rx where
  "rx_spaces = rx_plus is_space"

definition bullet_of_line :: "string \<Rightarrow> string list" where
  "bullet_of_line ln =
     (case match_group bullet_pre bullet_pt bullet_post ln of
        None \<Rightarrow> []
      | Some g \<Rightarrow>
          (let pt = re_sub rx_spaces '' '' (py_strip g)
           in if pt \<noteq> [] then [''- '' @ pt] else []))"

definition extract_bullets :: "string \<Rightarrow> string list" where
  "extract_bullets raw = concat (map bullet_of_line (py_splitlines raw))"

text \<open>\<open>_SENTENCE\<close> is \<open>(?<!\w\.\w.)(?<![A-Z][a-z]\.)(?<=\.|\?|!)\s\<close>.\<close>

definition rx_sentence :: rx where
  "rx_sentence =
     rx_seq (rx_assert (\<lambda>p. \<not> behind [is_word, one_of ''.'', is_word, not_newline] p))
       (rx_seq (rx_assert (\<lambda>p. \<not> behind [is_upper_az, is_lower_az, one_of ''.''] p))
         (rx_seq (rx_assert (\<lambda>p. behind [one_of ''.''] p \<or> behind [one_of ''?''] p \<or>
                                   behind [one_of ''!''] p))
           (rx_class is_space)))"

text \<open>\<open>\d%\b|\bpp\b|%\b\<close>\<close>

definition rx_pct_signal :: rx where
  "rx_pct_signal =
     rx_alt (rx_seq (rx_class is_digit) (rx_seq (rx_chr CHR ''%'') (rx_assert word_boundary)))
       (rx_alt (rx_seq (rx_assert word_boundary)
                  (rx_seq (rx_chr CHR ''p'') (rx_seq (rx_chr CHR ''p'') (rx_assert word_boundary))))
               (rx_seq (rx_chr CHR ''%'') (rx_assert word_boundary)))"

text \<open>\<open>\$\s*\d\<close>\<close>

definition rx_dollar_signal :: rx where
  "rx_dollar_signal = rx_seq (rx_chr CHR ''$'') (rx_seq (rx_star is_space) (rx_class is_digit))"

definition sentence_keywords :: "string list" where
  "sentence_keywords =
     [''yoy'', ''qoq'', ''guidance'', ''revenue'', ''retention'', ''market share'',
      ''pricing'', ''margin'']"

text \<open>
  The score of a candidate sentence, in tenths. The source adds the floats 3, 2, 2 and
  \<open>min(n, 5) * 0.3\<close>; the sums of the integers are exact, equal inputs give equal
  floats, and different exact values differ by at least 0.1, so the order of the floats
  is the order of the tenths.
\<close>

definition sentence_score :: "string \<Rightarrow> int" where
  "sentence_score s =
     (if re_search rx_pct_signal s then 30 else 0) +
     (if re_search rx_dollar_signal s then 20 else 0) +
     (if list_ex (\<lambda>w. py_in w (py_lower s)) sentence_keywords then 20 else 0) +
     int (min (length (re_findall (rx_class is_digit) s)) 5) * 3"

definition candidate_of :: "string \<Rightarrow> (int \<times> string) list" where
  "candidate_of c = (let s = py_strip c in if s = [] then [] else [(sentence_score s, s)])"

definition top_sentences :: "string \<Rightarrow> nat \<Rightarrow> string list" where
  "top_sentences text k =
     (let candidates = re_split rx_sentence text;
          scored = concat (map candidate_of candidates);
          scored1 = py_sort snd scored;
          scored2 = py_sort_reverse fst scored1
      in map (\<lambda>x. ''- '' @ re_sub rx_spaces '' '' (snd x)) (take k scored2))"

text \<open>The tag \<open>f" [p.{...}]"\<close> and \<open>_ensure_tag\<close>, whose test is \<open>re.search(r"\[p\.\d", s)\<close>.\<close>

definition tag_of :: "int \<Rightarrow> int \<Rightarrow> string" where
  "tag_of start_page end_page =
     '' [p.'' @ (if start_page = end_page then str_int start_page
                 else str_int start_page @ ''-'' @ str_int end_page) @ '']''"

definition rx_tag :: rx where
  "rx_tag =
     rx_seq (rx_chr CHR ''['') (rx_seq (rx_chr CHR ''p'') (rx_seq (rx_chr CHR ''.'')
       (rx_class is_digit)))"

definition ensure_tag :: "string \<Rightarrow> string \<Rightarrow> string" where
  "ensure_tag tag s = (if re_search rx_tag s then s else py_rstrip ''.'' s @ tag)"

text \<open>
  The generation backend. A call returns a string or \<open>None\<close>, raises an \<open>Exception\<close>
  (timeout, connection error, HTTP error status, malformed reply), or raises something
  that \<open>except Exception\<close> does not catch, such as \<open>KeyboardInterrupt\<close>. The backend is
  a function of the number of calls made before and of the prompt.
\<close>

datatype outcome = Returned string | ReturnedNone | RaisedException | RaisedOther

type_synonym backend = "nat \<Rightarrow> string \<Rightarrow> outcome"

text \<open>The part of the loop body after the backend call: parsing, fallback and tagging.\<close>

definition points_of :: "string \<Rightarrow> string \<Rightarrow> int \<Rightarrow> int \<Rightarrow> string list" where
  "points_of raw text_in start_page end_page =
     (let pts = extract_bullets raw;
          pts = (if pts = [] then top_sentences text_in 6 else pts)
      in map (ensure_tag (tag_of start_page end_page)) pts)"

text \<open>\<open>raw = client.generate(...) or ""\<close> inside \<open>try\<close> / \<open>except Exception\<close>.\<close>

definition raw_of :: "outcome \<Rightarrow> string option" where
  "raw_of out =
     (case out of Returned r \<Rightarrow> Some r | ReturnedNone \<Rightarrow> Some [] | RaisedException \<Rightarrow> Some []
      | RaisedOther \<Rightarrow> None)"

text \<open>
  The state of the loop is the list of bullets and the prompts sent so far. The result is
  \<open>None\<close> when an exception leaves the function.
\<close>

type_synonym run = "string list \<times> string list"

fun summarise_loop ::
  "backend \<Rightarrow> string \<Rightarrow> (string \<times> int \<times> int) list \<Rightarrow> run \<Rightarrow> run option" where
  "summarise_loop client template [] st = Some st"
| "summarise_loop client template ((chunk_text, start_page, end_page) # rest) st =
     (let text_in = py_strip chunk_text
      in if text_in = [] then summarise_loop client template rest st
         else
           (let prompt = format_prompt template text_in start_page end_page
            in case raw_of (client (length (snd st)) prompt) of
                 None \<Rightarrow> None
               | Some raw \<Rightarrow>
                   summarise_loop client template rest
                     (fst st @ points_of raw text_in start_page end_page, snd st @ [prompt])))"

definition summarise_chunks ::
  "backend \<Rightarrow> string \<Rightarrow> (string \<times> int \<times> int) list \<Rightarrow> run option" where
  "summarise_chunks client template cs = summarise_loop client template cs ([], [])"

section \<open>pipeline/ranker.py\<close>

text \<open>\<open>\d+\<close>, \<open>\d+%|\+\d+pp|-\d+pp\<close> and \<open>\$\d+\<close>.\<close>

definition rx_number :: rx where
  "rx_number = rx_plus is_digit"

definition rx_percent :: rx where
  "rx_percent =
     rx_alt (rx_seq (rx_plus is_digit) (rx_chr CHR ''%''))
       (rx_alt (rx_seq (rx_chr CHR ''+'')
                  (rx_seq (rx_plus is_digit) (rx_seq (rx_chr CHR ''p'') (rx_chr CHR ''p''))))
               (rx_seq (rx_chr CHR ''-'')
                  (rx_seq (rx_plus is_digit) (rx_seq (rx_chr CHR ''p'') (rx_chr CHR ''p'')))))"

definition rx_currency :: rx where
  "rx_currency = rx_seq (rx_chr CHR ''$'') (rx_plus is_digit)"

definition kpis :: "string list" where
  "kpis = [''revenue'', ''market share'', ''retention'', ''awareness'', ''guidance'',
           ''customers'', ''growth'', ''qoq'', ''yoy'']"

text \<open>
  \<open>score_value\<close>. The float \<open>score\<close> is a sum of the integers 5, 10 and 15, which floats
  represent exactly, so \<open>round(score, 1)\<close> returns it unchanged; the model computes the
  same number as an integer.
\<close>

definition score_value :: "string \<Rightarrow> int" where
  "score_value point =
     (let text = py_lower point;
          nums = re_findall rx_number point
      in int (min (length nums) 5) * 5 +
         10 * int (length (re_findall rx_percent point)) +
         (if re_search rx_currency point then 15 else 0) +
         5 * int (length (filter (\<lambda>k. py_in k text) kpis)))"

text \<open>
  \<open>rank_points\<close> without its file handling: from the lines of the points file to the
  ranked list that is written out.
\<close>

definition rank_points :: "string list \<Rightarrow> (string \<times> int) list" where
  "rank_points raw =
     (let points = map py_strip (filter (\<lambda>ln. py_strip ln \<noteq> []) raw);
          scored = map (\<lambda>p. (p, score_value p)) points
      in py_sort_reverse snd scored)"

section \<open>The scoring rule in the words of the specification\<close>

text \<open>
  The definitions of this section follow the sentences of the specification and use
  nothing of the model of the source: the digits, the letters that differ only in case
  and the keyword list are written out here.
\<close>

definition spec_is_digit :: "char \<Rightarrow> bool" where
  "spec_is_digit c \<longleftrightarrow> c \<in> set ''0123456789''"

text \<open>The number of maximal digit runs; the flag says that the previous character is a
  digit.\<close>

fun spec_runs_from :: "bool \<Rightarrow> string \<Rightarrow> nat" where
  "spec_runs_from prev [] = 0"
| "spec_runs_from prev (c # cs) =
     (if spec_is_digit c \<and> \<not> prev then 1 else 0) + spec_runs_from (spec_is_digit c) cs"

definition spec_digit_runs :: "string \<Rightarrow> nat" where
  "spec_digit_runs s = spec_runs_from False s"

text \<open>The occurrences of \<open>N%\<close>: the percent signs that directly follow a digit.\<close>

fun spec_percent_from :: "bool \<Rightarrow> string \<Rightarrow> nat" where
  "spec_percent_from prev [] = 0"
| "spec_percent_from prev (c # cs) =
     (if c = CHR ''%'' \<and> prev then 1 else 0) + spec_percent_from (spec_is_digit c) cs"

text \<open>The occurrences of \<open>+Npp\<close> and \<open>-Npp\<close>: the signs that are followed by one or more
  digits and then \<open>pp\<close>.\<close>

fun spec_signed_pp :: "string \<Rightarrow> nat" where
  "spec_signed_pp [] = 0"
| "spec_signed_pp (c # cs) =
     (if (c = CHR ''+'' \<or> c = CHR ''-'') \<and> takeWhile spec_is_digit cs \<noteq> [] \<and>
         prefix ''pp'' (dropWhile spec_is_digit cs) then 1 else 0) + spec_signed_pp cs"

text \<open>Two characters are the same when case is ignored: they are equal, or one is a
  capital letter and the other the small letter at the same place of the alphabet.\<close>

definition spec_same_letter :: "char \<Rightarrow> char \<Rightarrow> bool" where
  "spec_same_letter c d \<longleftrightarrow>
     c = d \<or>
     (c, d) \<in> set (zip ''ABCDEFGHIJKLMNOPQRSTUVWXYZ'' ''abcdefghijklmnopqrstuvwxyz'') \<or>
     (c, d) \<in> set (zip ''abcdefghijklmnopqrstuvwxyz'' ''ABCDEFGHIJKLMNOPQRSTUVWXYZ'')"

text \<open>The keyword list of the specification.\<close>

definition spec_keywords :: "string list" where
  "spec_keywords =
     [''revenue'', ''market share'', ''retention'', ''awareness'', ''guidance'',
      ''customers'', ''growth'', ''qoq'', ''yoy'']"

text \<open>A keyword occurs in a text as a case-insensitive substring.\<close>

definition spec_occurs :: "string \<Rightarrow> string \<Rightarrow> bool" where
  "spec_occurs k s \<longleftrightarrow> (\<exists>u w v. s = u @ w @ v \<and> list_all2 spec_same_letter w k)"

text \<open>
  The sum of the specification: 5 per digit run up to 5 runs, 10 per percentage or
  basis-point pattern, 15 when a dollar sign is directly followed by a digit, and 5 per
  keyword that occurs as a substring when case is ignored.
\<close>

definition spec_score :: "string \<Rightarrow> int" where
  "spec_score s =
     5 * int (min (spec_digit_runs s) 5) +
     10 * int (spec_percent_from False s + spec_signed_pp s) +
     (if \<exists>u d v. s = u @ CHR ''$'' # d # v \<and> spec_is_digit d then 15 else 0) +
     5 * int (card {k \<in> set spec_keywords. spec_occurs k s})"

section \<open>Auxiliary notions for the chunker proofs\<close>

text \<open>The texts of the chunks closed so far, followed by the text of the open buffer.\<close>

definition chunk_texts :: "loop_state \<Rightarrow> string list" where
  "chunk_texts s = map fst (chunks s) @ (if buf s = [] then [] else [concat (buf s)])"

definition buf_ok :: "loop_state \<Rightarrow> bool" where
  "buf_ok s \<longleftrightarrow> size_acc s = length (concat (buf s)) \<and> (buf s = [] \<longrightarrow> chunks s = [])"

fun chained :: "int \<Rightarrow> string list \<Rightarrow> bool" where
  "chained ov [] = True"
| "chained ov [a] = True"
| "chained ov (a # b # ts) = (prefix (tail_of a ov) b \<and> chained ov (b # ts))"

definition within_budget :: "int \<Rightarrow> int \<Rightarrow> page set \<Rightarrow> string \<Rightarrow> bool" where
  "within_budget mc ov P t \<longleftrightarrow>
     int (length t) \<le> mc \<or> (\<exists>p\<in>P. \<exists>tl. t = tl @ part_of p \<and> int (length tl) \<le> ov)"

definition buf_full :: "loop_state \<Rightarrow> bool" where
  "buf_full s \<longleftrightarrow> buf s \<noteq> [] \<and> concat (buf s) \<noteq> []"

section \<open>Auxiliary notions for the scoring proofs\<close>

text \<open>The three counts of the specification over the digit class of the runtime.\<close>

fun runs_from :: "bool \<Rightarrow> string \<Rightarrow> nat" where
  "runs_from prev [] = 0"
| "runs_from prev (c # cs) =
     (if is_digit c \<and> \<not> prev then 1 else 0) + runs_from (is_digit c) cs"

fun percent_from :: "bool \<Rightarrow> string \<Rightarrow> nat" where
  "percent_from prev [] = 0"
| "percent_from prev (c # cs) =
     (if c = CHR ''%'' \<and> prev then 1 else 0) + percent_from (is_digit c) cs"

fun signed_pp :: "string \<Rightarrow> nat" where
  "signed_pp [] = 0"
| "signed_pp (c # cs) =
     (if (c = CHR ''+'' \<or> c = CHR ''-'') \<and> takeWhile is_digit cs \<noteq> [] \<and>
         prefix ''pp'' (dropWhile is_digit cs) then 1 else 0) + signed_pp cs"

text \<open>The characters of the keywords: small letters and the space.\<close>

definition plain_char :: "char \<Rightarrow> bool" where
  "plain_char d \<longleftrightarrow> (97 \<le> code_point d \<and> code_point d \<le> 122) \<or> code_point d = 32"

text \<open>The number of matches a scan finds.\<close>

definition match_count :: "rx \<Rightarrow> string \<Rightarrow> string \<Rightarrow> nat" where
  "match_count r b s = length (fst (scan r b s))"

text \<open>The text after the match of \<open>\d+%|\+\d+pp|-\d+pp\<close> at the start of a text, if there
  is one.\<close>

fun percent_rest :: "string \<Rightarrow> string option" where
  "percent_rest [] = None"
| "percent_rest (c # cs) =
     (if is_digit c then
        (case dropWhile is_digit cs of [] \<Rightarrow> None
         | r # rs \<Rightarrow> if r = CHR ''%'' then Some rs else None)
      else if (c = CHR ''+'' \<or> c = CHR ''-'') \<and> takeWhile is_digit cs \<noteq> [] \<and>
              prefix ''pp'' (dropWhile is_digit cs)
        then Some (drop 2 (dropWhile is_digit cs))
      else None)"

section \<open>Chunker: invariants of the loop\<close>

lemma map_fst_finish: "map fst (finish s) = chunk_texts s"
  by (simp add: finish_def chunk_texts_def)

lemma part_of_nonempty: "part_of p \<noteq> []"
  by (simp add: part_of_def)

lemma buf_ok_init: "buf_ok init_state"
  by (simp add: buf_ok_def init_state_def)

lemma buf_ok_step: "buf_ok s \<Longrightarrow> buf_ok (chunk_step mc ov s p)"
  by (simp add: buf_ok_def chunk_step_def Let_def)

lemma chunk_loop_snoc:
  "chunk_loop mc ov s (ps @ [p]) = chunk_step mc ov (chunk_loop mc ov s ps) p"
  by (simp add: chunk_loop_def)

lemma chunk_loop_Nil: "chunk_loop mc ov s [] = s"
  by (simp add: chunk_loop_def)

lemma buf_ok_loop: "buf_ok s \<Longrightarrow> buf_ok (chunk_loop mc ov s ps)"
  by (induction ps rule: rev_induct) (simp_all add: chunk_loop_snoc chunk_loop_Nil buf_ok_step)

lemma chunk_texts_step:
  "buf_ok s \<Longrightarrow> chunk_texts (chunk_step mc ov s p) =
     (if buf s = [] then [part_of p]
      else if int (size_acc s + length (part_of p)) > mc
        then chunk_texts s @ [tail_of (last (chunk_texts s)) ov @ part_of p]
      else butlast (chunk_texts s) @ [last (chunk_texts s) @ part_of p])"
  by (auto simp add: buf_ok_def chunk_step_def chunk_texts_def Let_def butlast_append)

lemma chunk_texts_last:
  "buf s \<noteq> [] \<Longrightarrow> chunk_texts s \<noteq> [] \<and> last (chunk_texts s) = concat (buf s)"
  by (simp add: chunk_texts_def)

lemma chained_snoc:
  "ts \<noteq> [] \<Longrightarrow> chained ov (ts @ [x]) \<longleftrightarrow> chained ov ts \<and> prefix (tail_of (last ts) ov) x"
  by (induction ov ts rule: chained.induct) auto

lemma chained_extend_last:
  "chained ov ts \<Longrightarrow> ts \<noteq> [] \<Longrightarrow> chained ov (butlast ts @ [last ts @ y])"
  by (induction ov ts rule: chained.induct) (auto simp add: prefix_def)

lemma chained_nth:
  "chained ov ts \<Longrightarrow> Suc n < length ts \<Longrightarrow> prefix (tail_of (ts ! n) ov) (ts ! Suc n)"
proof (induction ov ts arbitrary: n rule: chained.induct)
  case (3 ov a b ts)
  then show ?case by (cases n) auto
qed auto

lemma chained_step:
  assumes "buf_ok s" "chained ov (chunk_texts s)"
  shows "chained ov (chunk_texts (chunk_step mc ov s p))"
proof -
  have ne: "buf s \<noteq> [] \<Longrightarrow> chunk_texts s \<noteq> []"
    by (simp add: chunk_texts_last)
  show ?thesis
    using assms ne
    by (auto simp add: chunk_texts_step chained_snoc chained_extend_last)
qed

lemma chained_loop:
  "chained ov (chunk_texts (chunk_loop mc ov init_state ps))"
proof (induction ps rule: rev_induct)
  case Nil
  show ?case by (simp add: chunk_loop_Nil chunk_texts_def init_state_def)
next
  case (snoc p ps)
  then show ?case
    by (simp add: chunk_loop_snoc chained_step buf_ok_loop buf_ok_init)
qed

lemma tail_of_length: "0 \<le> ov \<Longrightarrow> int (length (tail_of t ov)) \<le> ov"
  by (auto simp add: tail_of_def)

lemma tail_of_suffix: "suffix (tail_of t ov) t"
  by (simp add: tail_of_def suffix_drop)

lemma within_budget_mono: "within_budget mc ov P t \<Longrightarrow> P \<subseteq> Q \<Longrightarrow> within_budget mc ov Q t"
  by (auto simp add: within_budget_def)

lemma within_budget_step:
  assumes "buf_ok s" "0 \<le> ov"
    and "\<forall>t\<in>set (chunk_texts s). within_budget mc ov P t"
  shows "\<forall>t\<in>set (chunk_texts (chunk_step mc ov s p)). within_budget mc ov (insert p P) t"
proof (cases "buf s = []")
  case True
  then show ?thesis using assms(1)
    using assms(2) by (simp add: chunk_texts_step within_budget_def)
next
  case False
  note ne = chunk_texts_last [OF False]
  have old: "\<forall>t\<in>set (chunk_texts s). within_budget mc ov (insert p P) t"
    using assms(3) within_budget_mono by blast
  show ?thesis
  proof (cases "int (size_acc s + length (part_of p)) > mc")
    case True
    have "within_budget mc ov (insert p P) (tail_of (last (chunk_texts s)) ov @ part_of p)"
      unfolding within_budget_def using tail_of_length [OF assms(2)] by blast
    then show ?thesis using assms(1) False True old
      by (simp add: chunk_texts_step)
  next
    case nc: False
    have "size_acc s = length (last (chunk_texts s))"
      using assms(1) ne by (simp add: buf_ok_def)
    then have "within_budget mc ov (insert p P) (last (chunk_texts s) @ part_of p)"
      using nc by (simp add: within_budget_def)
    moreover have "set (butlast (chunk_texts s)) \<subseteq> set (chunk_texts s)"
      by (simp add: in_set_butlastD subsetI)
    ultimately show ?thesis using assms(1) False nc old
      by (auto simp add: chunk_texts_step)
  qed
qed

lemma within_budget_loop:
  assumes "0 \<le> ov"
  shows "\<forall>t\<in>set (chunk_texts (chunk_loop mc ov init_state ps)). within_budget mc ov (set ps) t"
proof (induction ps rule: rev_induct)
  case Nil
  show ?case by (simp add: chunk_loop_Nil chunk_texts_def init_state_def)
next
  case (snoc p ps)
  have "\<forall>t\<in>set (chunk_texts (chunk_step mc ov (chunk_loop mc ov init_state ps) p)).
          within_budget mc ov (insert p (set ps)) t"
    by (rule within_budget_step [OF buf_ok_loop [OF buf_ok_init] assms snoc])
  then show ?case by (simp add: chunk_loop_snoc)
qed

lemma tail_of_nonempty: "0 < ov \<Longrightarrow> t \<noteq> [] \<Longrightarrow> tail_of t ov \<noteq> []"
  by (cases t) (auto simp add: tail_of_def)

text \<open>A run with two pages of 1000 characters, budget 1100 and overlap 200.\<close>

lemma two_page_run:
  "chunk_pages [(1, replicate 1000 CHR ''a''), (2, replicate 1000 CHR ''b'')] 1100 200 =
     Inr [(part_of (1, replicate 1000 CHR ''a''), Some 1, Some 1),
          (replicate 199 CHR ''a'' @ [nl] @ part_of (2, replicate 1000 CHR ''b''), Some 1, Some 2)]"
  by code_simp

lemma two_page_lengths:
  "length (part_of (1, replicate 1000 CHR ''a'')) = 1008 \<and>
   length (part_of (2, replicate 1000 CHR ''b'')) = 1008"
  by code_simp

section \<open>Chunk size\<close>

text \<open>
  Claim C1, as stated: every chunk has at most \<open>max_chars\<close> characters unless a single
  page's formatted text alone exceeds \<open>max_chars\<close>; in particular an overlap tail plus one
  page within budget never exceeds \<open>max_chars\<close>. This fails: with budget 1100 and overlap
  200, two pages whose formatted texts have 1008 characters each give a second chunk made of
  the 200 character tail and page 2, 1208 characters in all.
\<close>

theorem chunk_size_counterexample:
  "chunk_pages [(1, replicate 1000 CHR ''a''), (2, replicate 1000 CHR ''b'')] 1100 200 =
     Inr [(part_of (1, replicate 1000 CHR ''a''), Some 1, Some 1),
          (replicate 199 CHR ''a'' @ [nl] @ part_of (2, replicate 1000 CHR ''b''), Some 1, Some 2)] \<and>
   int (length (part_of (1, replicate 1000 CHR ''a''))) \<le> 1100 \<and>
   int (length (part_of (2, replicate 1000 CHR ''b''))) \<le> 1100 \<and>
   1100 < int (length (replicate 199 CHR ''a'' @ [nl] @ part_of (2, replicate 1000 CHR ''b'')))"
  using two_page_run two_page_lengths by simp

text \<open>
  Claim C1, amended: for every accepted configuration, every chunk has at most \<open>max_chars\<close>
  characters, or it consists of an overlap tail of at most \<open>overlap\<close> characters (possibly
  empty) followed by the formatted text of exactly one page. The size check of the loop is
  made before the tail is seeded, and the tail is not counted against the budget of the
  page that follows it.
\<close>

theorem chunk_size_bound:
  assumes "chunk_pages pages max_chars overlap = Inr cs" and "c \<in> set cs"
  shows "int (length (fst c)) \<le> max_chars \<or>
         (\<exists>p\<in>set pages. \<exists>tl. fst c = tl @ part_of p \<and> int (length tl) \<le> overlap)"
proof -
  from assms(1) have ov: "0 \<le> overlap"
    and cs: "cs = finish (chunk_loop max_chars overlap init_state pages)"
    by (simp_all add: chunk_pages_def split: if_splits)
  from assms(2) have "fst c \<in> set (map fst cs)"
    by simp
  then have "fst c \<in> set (chunk_texts (chunk_loop max_chars overlap init_state pages))"
    by (simp only: cs map_fst_finish)
  with within_budget_loop [OF ov] have "within_budget max_chars overlap (set pages) (fst c)"
    by blast
  then show ?thesis
    by (simp add: within_budget_def)
qed

theorem chunk_size_bound_witness:
  "chunk_pages [(1, replicate 1000 CHR ''a''), (2, replicate 1000 CHR ''b'')] 1100 200 =
     Inr [(part_of (1, replicate 1000 CHR ''a''), Some 1, Some 1),
          (replicate 199 CHR ''a'' @ [nl] @ part_of (2, replicate 1000 CHR ''b''), Some 1, Some 2)] \<and>
   (int (length (replicate 199 CHR ''a'' @ [nl] @ part_of (2, replicate 1000 CHR ''b''))) \<le> 1100 \<or>
    (\<exists>p\<in>set [(1, replicate 1000 CHR ''a''), (2, replicate 1000 CHR ''b'')]. \<exists>tl.
       replicate 199 CHR ''a'' @ [nl] @ part_of (2, replicate 1000 CHR ''b'') = tl @ part_of p \<and>
       int (length tl) \<le> 200))"
proof -
  have "(replicate 199 CHR ''a'' @ [nl] @ part_of (2, replicate 1000 CHR ''b''), Some 1, Some (2::int))
        \<in> set [(part_of (1, replicate 1000 CHR ''a''), Some 1, Some 1),
          (replicate 199 CHR ''a'' @ [nl] @ part_of (2, replicate 1000 CHR ''b''), Some 1, Some 2)]"
    by simp
  from chunk_size_bound [OF two_page_run this] two_page_run show ?thesis
    by simp
qed

section \<open>Overlap\<close>

text \<open>
  Claim C7: for every accepted configuration, the text seeded into a new buffer, which is
  \<open>joined[-overlap:]\<close> of the chunk just closed, is shorter than \<open>max_chars\<close>, is a suffix
  of that chunk's text, and the next chunk's text begins with it. With \<open>overlap = 200\<close>
  the next chunk begins with exactly the last 200 characters of the previous chunk's text
  (all of it when it has fewer than 200 characters, as the slice does).
\<close>

theorem overlap_seed:
  assumes "chunk_pages pages max_chars overlap = Inr cs" and "Suc n < length cs"
  shows "prefix (tail_of (fst (cs ! n)) overlap) (fst (cs ! Suc n)) \<and>
         suffix (tail_of (fst (cs ! n)) overlap) (fst (cs ! n)) \<and>
         int (length (tail_of (fst (cs ! n)) overlap)) < max_chars \<and>
         (overlap = 200 \<longrightarrow>
            take (min 200 (length (fst (cs ! n)))) (fst (cs ! Suc n)) =
            drop (length (fst (cs ! n)) - 200) (fst (cs ! n)))"
proof -
  from assms(1) have ov: "0 \<le> overlap" "overlap < max_chars"
    and cs: "cs = finish (chunk_loop max_chars overlap init_state pages)"
    by (simp_all add: chunk_pages_def split: if_splits)
  let ?ts = "chunk_texts (chunk_loop max_chars overlap init_state pages)"
  have ts: "map fst cs = ?ts"
    by (simp only: cs map_fst_finish)
  have n: "Suc n < length ?ts"
    using assms(2) ts by (metis length_map)
  have a: "fst (cs ! n) = ?ts ! n" and b: "fst (cs ! Suc n) = ?ts ! Suc n"
    using assms(2) ts by (metis Suc_lessD nth_map, metis nth_map)
  have p: "prefix (tail_of (fst (cs ! n)) overlap) (fst (cs ! Suc n))"
    unfolding a b by (rule chained_nth [OF chained_loop n])
  have l: "int (length (tail_of (fst (cs ! n)) overlap)) < max_chars"
    using tail_of_length [OF ov(1), of "fst (cs ! n)"] ov(2) by linarith
  have t: "overlap = 200 \<longrightarrow>
            take (min 200 (length (fst (cs ! n)))) (fst (cs ! Suc n)) =
            drop (length (fst (cs ! n)) - 200) (fst (cs ! n))"
  proof
    assume o: "overlap = 200"
    from p obtain rest where r: "fst (cs ! Suc n) = tail_of (fst (cs ! n)) overlap @ rest"
      by (auto simp add: prefix_def)
    show "take (min 200 (length (fst (cs ! n)))) (fst (cs ! Suc n)) =
            drop (length (fst (cs ! n)) - 200) (fst (cs ! n))"
      by (simp add: r o tail_of_def min_def)
  qed
  from p tail_of_suffix l t show ?thesis
    by blast
qed

theorem overlap_seed_witness:
  "chunk_pages [(1, replicate 1000 CHR ''a''), (2, replicate 1000 CHR ''b'')] 1100 200 =
     Inr [(part_of (1, replicate 1000 CHR ''a''), Some 1, Some 1),
          (replicate 199 CHR ''a'' @ [nl] @ part_of (2, replicate 1000 CHR ''b''), Some 1, Some 2)] \<and>
   take 200 (replicate 199 CHR ''a'' @ [nl] @ part_of (2, replicate 1000 CHR ''b'')) =
   drop 808 (part_of (1, replicate 1000 CHR ''a''))"
proof -
  have n: "Suc 0 < length [(part_of (1, replicate 1000 CHR ''a''), Some 1, Some 1),
          (replicate 199 CHR ''a'' @ [nl] @ part_of (2, replicate 1000 CHR ''b''), Some 1, Some 2)]"
    by simp
  from overlap_seed [OF two_page_run n] two_page_run two_page_lengths show ?thesis
    by simp
qed

section \<open>Configuration check of the chunker\<close>

lemma chunk_pages_raises_iff:
  "(\<exists>e. chunk_pages pages max_chars overlap = Inl e) \<longleftrightarrow>
     max_chars \<le> 1000 \<or> overlap < 0 \<or> overlap \<ge> max_chars"
  by (simp add: chunk_pages_def)

lemma chunk_pages_no_clamp:
  "chunk_pages pages max_chars overlap = Inr cs \<longleftrightarrow>
     1000 < max_chars \<and> 0 \<le> overlap \<and> overlap < max_chars \<and>
     cs = finish (chunk_loop max_chars overlap init_state pages)"
  by (auto simp add: chunk_pages_def)

text \<open>
  Claim C6. The claim says that no configuration error is raised for any
  \<open>max_chars \<ge> 1000\<close> with \<open>0 \<le> overlap < max_chars\<close>. The guard of the source is
  \<open>max_chars <= 1000\<close>, so the budget 1000 itself, which the command line validation
  accepts (\<open>ensure_positive_int("max-chars", ..., 1000)\<close>), is rejected: at
  \<open>max_chars = 1000\<close> and \<open>overlap = 0\<close> the function raises for every page list.
\<close>

theorem chunk_pages_rejects_1000:
  "chunk_pages pages 1000 0 = Inl (ValueError ''max_chars too small; recommend >= 3000'')"
  by (simp add: chunk_pages_def)

section \<open>Start page of a chunk seeded with an overlap tail\<close>

lemma buf_full_step: "buf_full (chunk_step mc ov s p)"
  by (simp add: buf_full_def chunk_step_def Let_def part_of_nonempty)

lemma start_kept_step:
  assumes "0 < ov" "buf_full s" "start_p s = Some a" "\<forall>c\<in>set (chunks s). fst (snd c) = Some a"
  shows "start_p (chunk_step mc ov s p) = Some a \<and>
         (\<forall>c\<in>set (chunks (chunk_step mc ov s p)). fst (snd c) = Some a)"
  using assms tail_of_nonempty [OF assms(1), of "concat (buf s)"]
  by (auto simp add: buf_full_def chunk_step_def Let_def)

lemma start_kept_loop:
  assumes "0 < ov"
  shows "buf_full (chunk_loop mc ov init_state (p # ps)) \<and>
         start_p (chunk_loop mc ov init_state (p # ps)) = Some (fst p) \<and>
         (\<forall>c\<in>set (chunks (chunk_loop mc ov init_state (p # ps))). fst (snd c) = Some (fst p))"
proof (induction ps rule: rev_induct)
  case Nil
  show ?case
    by (simp add: chunk_loop_def buf_full_step) (simp add: chunk_step_def init_state_def Let_def)
next
  case (snoc q qs)
  have e: "chunk_loop mc ov init_state (p # qs @ [q]) =
           chunk_step mc ov (chunk_loop mc ov init_state (p # qs)) q"
    using chunk_loop_snoc [of mc ov init_state "p # qs" q] by simp
  show ?case
    unfolding e using snoc start_kept_step [OF assms] buf_full_step by blast
qed

lemma start_after_empty_tail:
  "buf s \<noteq> [] \<Longrightarrow> int (size_acc s + length (part_of p)) > mc \<Longrightarrow>
   start_p (chunk_step mc 0 s p) = Some (fst p)"
  by (simp add: chunk_step_def Let_def tail_of_def)

lemma start_after_tail:
  "buf s \<noteq> [] \<Longrightarrow> int (size_acc s + length (part_of p)) > mc \<Longrightarrow>
   tail_of (concat (buf s)) ov \<noteq> [] \<Longrightarrow>
   start_p (chunk_step mc ov s p) = start_p s \<and>
   last (chunks (chunk_step mc ov s p)) = (concat (buf s), start_p s, py_or (end_p s) (start_p s))"
  by (simp add: chunk_step_def Let_def)

lemma start_page_never_advances:
  assumes "chunk_pages (p # ps) max_chars overlap = Inr cs" "0 < overlap" "fst p \<noteq> 0"
    and "c \<in> set cs"
  shows "fst (snd c) = Some (fst p)"
proof -
  from assms(1) have cs: "cs = finish (chunk_loop max_chars overlap init_state (p # ps))"
    by (simp add: chunk_pages_def split: if_splits)
  show ?thesis
    using start_kept_loop [OF assms(2), of max_chars p ps] assms(3,4)
    by (auto simp add: cs finish_def py_or_def split: if_splits)
qed

text \<open>
  Claim C2. The claim says that a chunk seeded with a non-empty tail starts at the page that
  produced the tail, the last page of the chunk just closed. The source keeps \<open>start_p\<close>
  unchanged in that case, which is the first page of the closed chunk. With budget 1100 and
  overlap 10, three pages of 500 characters give a first chunk for pages 1 to 2 and a second
  chunk seeded with the last 10 characters of page 2: its start page is 1, not 2.
\<close>

theorem start_page_after_overlap:
  "chunk_pages [(1, replicate 500 CHR ''a''), (2, replicate 500 CHR ''b''),
                (3, replicate 500 CHR ''c'')] 1100 10 =
     Inr [(part_of (1, replicate 500 CHR ''a'') @ part_of (2, replicate 500 CHR ''b''),
           Some 1, Some 2),
          (replicate 9 CHR ''b'' @ [nl] @ part_of (3, replicate 500 CHR ''c''),
           Some 1, Some 3)]"
  by code_simp

section \<open>Regular expression searches\<close>

lemma rx_class_case:
  "rx_class P (b, s) = (case s of [] \<Rightarrow> [] | c # cs \<Rightarrow> if P c then [(c # b, cs)] else [])"
  by (simp add: rx_class_def split: list.splits)

lemma rx_seq_class:
  "rx_seq (rx_class P) r (b, s) = (case s of [] \<Rightarrow> [] | c # cs \<Rightarrow> if P c then r (c # b, cs) else [])"
  by (simp add: rx_seq_def rx_class_def split: list.splits)

lemma rx_seq_chr:
  "rx_seq (rx_chr a) r (b, s) = (case s of [] \<Rightarrow> [] | c # cs \<Rightarrow> if c = a then r (c # b, cs) else [])"
  by (simp add: rx_chr_def rx_seq_class)

lemma set_positions_from:
  "set (positions_from b s) = {(rev u @ b, v) | u v. s = u @ v}"
proof (induction s arbitrary: b)
  case Nil
  show ?case by auto
next
  case (Cons c s)
  show ?case
  proof (rule set_eqI)
    fix p
    show "p \<in> set (positions_from b (c # s)) \<longleftrightarrow> p \<in> {(rev u @ b, v) | u v. c # s = u @ v}"
    proof
      assume "p \<in> set (positions_from b (c # s))"
      then consider "p = (b, c # s)" | "p \<in> set (positions_from (c # b) s)"
        by auto
      then show "p \<in> {(rev u @ b, v) | u v. c # s = u @ v}"
      proof cases
        case 1
        then have "p = (rev [] @ b, c # s) \<and> c # s = [] @ c # s" by simp
        then show ?thesis by blast
      next
        case 2
        then obtain u v where "p = (rev u @ c # b, v)" "s = u @ v"
          unfolding Cons.IH by blast
        then have "p = (rev (c # u) @ b, v) \<and> c # s = (c # u) @ v" by simp
        then show ?thesis by blast
      qed
    next
      assume "p \<in> {(rev u @ b, v) | u v. c # s = u @ v}"
      then obtain u v where p: "p = (rev u @ b, v)" and e: "c # s = u @ v"
        by blast
      show "p \<in> set (positions_from b (c # s))"
      proof (cases u)
        case Nil
        with e have "v = c # s" by simp
        then show ?thesis using p Nil by simp
      next
        case (Cons a u')
        then have "p = (rev u' @ c # b, v)" "s = u' @ v"
          using p e by simp_all
        then have "p \<in> set (positions_from (c # b) s)"
          unfolding Cons.IH by blast
        then show ?thesis by simp
      qed
    qed
  qed
qed

lemma re_search_iff:
  "re_search r s \<longleftrightarrow> (\<exists>u v. s = u @ v \<and> r (rev u, v) \<noteq> [])"
  by (auto simp add: re_search_def list_ex_iff set_positions_from)

lemma rx_tag_iff:
  "rx_tag (b, v) \<noteq> [] \<longleftrightarrow> (\<exists>d w. v = ''[p.'' @ d # w \<and> is_digit d)"
  by (auto simp add: rx_tag_def rx_seq_chr rx_class_case split: list.splits if_splits)

lemma re_search_rx_tag:
  "re_search rx_tag s \<longleftrightarrow> (\<exists>u d w. s = u @ ''[p.'' @ d # w \<and> is_digit d)"
  unfolding re_search_iff rx_tag_iff by blast

section \<open>Blank chunks\<close>

lemma py_strip_empty_iff: "py_strip s = [] \<longleftrightarrow> (\<forall>c\<in>set s. is_space c)"
proof
  assume "py_strip s = []"
  then have a: "\<forall>c\<in>set (dropWhile is_space s). is_space c"
    by (simp add: py_strip_def)
  have "dropWhile is_space s = []"
  proof (rule ccontr)
    assume n: "dropWhile is_space s \<noteq> []"
    then have "\<not> is_space (hd (dropWhile is_space s))"
      by (rule hd_dropWhile)
    moreover have "hd (dropWhile is_space s) \<in> set (dropWhile is_space s)"
      using n by simp
    ultimately show False using a by blast
  qed
  then show "\<forall>c\<in>set s. is_space c"
    by simp
next
  assume "\<forall>c\<in>set s. is_space c"
  then show "py_strip s = []"
    by (auto simp add: py_strip_def dest: set_dropWhileD)
qed

lemma summarise_loop_skip:
  "py_strip chunk_text = [] \<Longrightarrow>
   summarise_loop client template (pre @ (chunk_text, sp, ep) # post) st =
   summarise_loop client template (pre @ post) st"
proof (induction pre arbitrary: st)
  case Nil
  then show ?case by simp
next
  case (Cons c pre)
  obtain t a b where c: "c = (t, a, b)"
    by (cases c) auto
  show ?case
    using Cons by (simp add: c Let_def split: option.splits)
qed

text \<open>
  Claim C10: a chunk whose text is empty or consists only of whitespace is skipped. The
  run of \<open>summarise_chunks\<close> on a chunk list that contains such a chunk is the run on the
  list without it: the same bullets, and the same prompts sent to the backend, so no
  call is made for the chunk, no fallback runs for it and it adds no point.
\<close>

theorem blank_chunk_skipped:
  assumes "\<forall>c\<in>set chunk_text. is_space c"
  shows "summarise_chunks client template (pre @ (chunk_text, sp, ep) # post) =
         summarise_chunks client template (pre @ post)"
  using assms by (simp add: summarise_chunks_def summarise_loop_skip py_strip_empty_iff)

theorem blank_chunk_skipped_witness:
  "is_space CHR '' '' \<and> is_space nl \<and>
   summarise_chunks (\<lambda>n p. Returned ''- Sales rose.'') ''{{TEXT}}''
     ([] @ ([CHR '' '', nl], 1, 1) # [(''Sales rose.'', 2, 2)]) =
   summarise_chunks (\<lambda>n p. Returned ''- Sales rose.'') ''{{TEXT}}''
     ([] @ [(''Sales rose.'', 2, 2)])"
proof -
  have s: "is_space CHR '' '' \<and> is_space nl"
    by (simp add: is_space_def code_point_def nl_def)
  then have h: "\<forall>c\<in>set [CHR '' '', nl]. is_space c"
    by simp
  from blank_chunk_skipped [OF h] s show ?thesis
    by blast
qed

section \<open>Failures of the generation backend\<close>

lemma extract_bullets_Nil: "extract_bullets [] = []"
  by (simp add: extract_bullets_def py_splitlines_def)

lemma raw_of_Some: "out \<noteq> RaisedOther \<Longrightarrow> \<exists>raw. raw_of out = Some raw"
  by (cases out) (simp_all add: raw_of_def)

lemma summarise_loop_total:
  "(\<forall>n p. client n p \<noteq> RaisedOther) \<Longrightarrow> \<exists>r. summarise_loop client template cs st = Some r"
proof (induction cs arbitrary: st)
  case Nil
  then show ?case by simp
next
  case (Cons c cs)
  obtain t a b where c: "c = (t, a, b)"
    by (cases c) auto
  show ?case
  proof (cases "py_strip t = []")
    case True
    then show ?thesis
      using Cons by (simp add: c)
  next
    case False
    obtain raw where r: "raw_of (client (length (snd st)) (format_prompt template (py_strip t) a b)) = Some raw"
      using Cons.prems raw_of_Some by blast
    show ?thesis
      using False r Cons by (simp add: c Let_def)
  qed
qed

text \<open>
  Claim C8: when the backend call for a chunk raises an \<open>Exception\<close>, the loop goes on
  with the remaining chunks from the state in which the chunk has contributed the points
  of the empty raw output, which are the tagged fallback sentences of the chunk's text.
  When no call raises anything that \<open>except Exception\<close> lets through, the whole run
  returns a result.
\<close>

theorem generation_failure_absorbed:
  assumes "py_strip chunk_text \<noteq> []"
    and "client (length calls) (format_prompt template (py_strip chunk_text) sp ep) = RaisedException"
  shows "summarise_loop client template ((chunk_text, sp, ep) # rest) (bullets, calls) =
         summarise_loop client template rest
           (bullets @ map (ensure_tag (tag_of sp ep)) (top_sentences (py_strip chunk_text) 6),
            calls @ [format_prompt template (py_strip chunk_text) sp ep]) \<and>
         points_of [] (py_strip chunk_text) sp ep =
           map (ensure_tag (tag_of sp ep)) (top_sentences (py_strip chunk_text) 6) \<and>
         ((\<forall>n p. client n p \<noteq> RaisedOther) \<longrightarrow>
            (\<exists>r. summarise_chunks client template cs = Some r))"
  using assms summarise_loop_total [of client template cs "([], [])"]
  by (simp add: Let_def raw_of_def points_of_def extract_bullets_Nil summarise_chunks_def)

lemma failure_example:
  "py_strip ''Sales rose 5%.'' = ''Sales rose 5%.'' \<and>
   format_prompt ''{{TEXT}}'' ''Sales rose 5%.'' 1 1 = ''Sales rose 5%.'' \<and>
   map (ensure_tag (tag_of 1 1)) (top_sentences ''Sales rose 5%.'' 6) = [''- Sales rose 5% [p.1]'']"
  by code_simp

theorem generation_failure_absorbed_witness:
  "summarise_loop (\<lambda>n p. RaisedException) ''{{TEXT}}'' [(''Sales rose 5%.'', 1, 1)] ([], []) =
     Some ([''- Sales rose 5% [p.1]''], [''Sales rose 5%.'']) \<and>
   points_of [] ''Sales rose 5%.'' 1 1 = [''- Sales rose 5% [p.1]''] \<and>
   (\<exists>r. summarise_chunks (\<lambda>n p. RaisedException) ''{{TEXT}}'' [(''Sales rose 5%.'', 1, 1)] = Some r)"
proof -
  let ?C = "(\<lambda>n p. RaisedException) :: backend"
  have h1: "py_strip ''Sales rose 5%.'' \<noteq> []"
    using failure_example by simp
  have h2: "?C (length ([] :: string list))
              (format_prompt ''{{TEXT}}'' (py_strip ''Sales rose 5%.'') 1 1) = RaisedException"
    by simp
  have h3: "\<forall>n p. ?C n p \<noteq> RaisedOther"
    by simp
  note t = generation_failure_absorbed
    [where client = "?C" and template = "''{{TEXT}}''" and chunk_text = "''Sales rose 5%.''"
       and sp = 1 and ep = 1 and calls = "[]" and rest = "[]" and bullets = "[]"
       and cs = "[(''Sales rose 5%.'', 1, 1)]", OF h1 h2]
  from t have "summarise_loop ?C ''{{TEXT}}'' [(''Sales rose 5%.'', 1, 1)] ([], []) =
      summarise_loop ?C ''{{TEXT}}'' []
        ([] @ map (ensure_tag (tag_of 1 1)) (top_sentences (py_strip ''Sales rose 5%.'') 6),
         [] @ [format_prompt ''{{TEXT}}'' (py_strip ''Sales rose 5%.'') 1 1])"
    by (rule conjunct1)
  also have "\<dots> = Some ([''- Sales rose 5% [p.1]''], [''Sales rose 5%.''])"
    by (simp add: failure_example)
  finally have a: "summarise_loop ?C ''{{TEXT}}'' [(''Sales rose 5%.'', 1, 1)] ([], []) =
      Some ([''- Sales rose 5% [p.1]''], [''Sales rose 5%.''])" .
  from t have "points_of [] (py_strip ''Sales rose 5%.'') 1 1 =
      map (ensure_tag (tag_of 1 1)) (top_sentences (py_strip ''Sales rose 5%.'') 6)"
    by blast
  then have b: "points_of [] ''Sales rose 5%.'' 1 1 = [''- Sales rose 5% [p.1]'']"
    by (simp add: failure_example)
  from t h3 have c: "\<exists>r. summarise_chunks ?C ''{{TEXT}}'' [(''Sales rose 5%.'', 1, 1)] = Some r"
    by blast
  from a b c show ?thesis
    by blast
qed

section \<open>Page tags\<close>

lemma py_rstrip_dots:
  "\<exists>n. s = py_rstrip ''.'' s @ replicate n CHR ''.'' \<and> \<not> suffix ''.'' (py_rstrip ''.'' s)"
proof -
  let ?P = "one_of ''.''"
  let ?t = "takeWhile ?P (rev s)" and ?d = "dropWhile ?P (rev s)"
  have "\<forall>c\<in>set ?t. c = CHR ''.''"
    by (auto simp add: one_of_def dest: set_takeWhileD)
  then have t: "replicate (length ?t) CHR ''.'' = ?t"
    by (simp add: replicate_length_same)
  have "rev s = ?t @ ?d"
    by simp
  then have "s = rev ?d @ rev ?t"
    by (metis rev_append rev_rev_ident)
  moreover have "rev ?t = replicate (length ?t) CHR ''.''"
    by (metis t rev_replicate)
  ultimately have a: "s = py_rstrip ''.'' s @ replicate (length ?t) CHR ''.''"
    by (simp add: py_rstrip_def)
  have b: "\<not> suffix ''.'' (py_rstrip ''.'' s)"
  proof
    assume "suffix ''.'' (py_rstrip ''.'' s)"
    then obtain r where "rev ?d = r @ ''.''"
      by (auto simp add: suffix_def py_rstrip_def)
    then have "?d = CHR ''.'' # rev r"
      by (metis rev_append rev_rev_ident rev_singleton_conv append_Cons append_Nil)
    moreover have "?d \<noteq> [] \<Longrightarrow> \<not> ?P (hd ?d)"
      by (rule hd_dropWhile)
    ultimately show False
      by (simp add: one_of_def)
  qed
  from a b show ?thesis by blast
qed

lemma bullets_example:
  "extract_bullets (''- Revenue grew 12%.'' @ [nl] @ ''Some non-bullet narration.'') =
     [''- Revenue grew 12%.'']"
  by code_simp

lemma tag_example:
  "ensure_tag (tag_of 3 3) ''- Revenue grew 12%.'' = ''- Revenue grew 12% [p.3]''"
  by code_simp

text \<open>
  Claim C5, as stated: a point that lacks a \<open>[p.N]\<close> or \<open>[p.N-M]\<close> pattern gets the tag
  appended after exactly one trailing period is removed. This fails: \<open>rstrip(".")\<close>
  removes every trailing period, so the bullet \<open>- Done..\<close> becomes \<open>- Done [p.3]\<close>, not
  \<open>- Done. [p.3]\<close>; and the test for an existing tag is \<open>[p.\<close> followed by a digit, so
  \<open>- See [p.4 of the annex.\<close>, which has no complete tag, is left as it is.
\<close>

theorem ensure_tag_counterexample:
  "points_of ''- Done..'' ''Done..'' 3 3 = [''- Done [p.3]''] \<and>
   points_of ''- Done..'' ''Done..'' 3 3 \<noteq> [''- Done. [p.3]''] \<and>
   points_of ''- See [p.4 of the annex.'' ''x'' 3 3 = [''- See [p.4 of the annex.'']"
  by code_simp

text \<open>
  Claim C5, amended: a point that contains \<open>[p.\<close> followed by a digit is returned
  unchanged; any other point loses all its trailing periods and gets the tag
  \<open>[p.{start}]\<close> (when \<open>start_page = end_page\<close>) or \<open>[p.{start}-{end}]\<close> appended after a
  space. With \<open>start_page = end_page = 3\<close> the raw text with the lines
  \<open>- Revenue grew 12%.\<close> and \<open>Some non-bullet narration.\<close> yields exactly the one point
  \<open>- Revenue grew 12% [p.3]\<close>.
\<close>

theorem ensure_tag_behaviour:
  "((\<exists>u d w. s = u @ ''[p.'' @ d # w \<and> is_digit d) \<longrightarrow> ensure_tag (tag_of sp ep) s = s) \<and>
   (\<not> (\<exists>u d w. s = u @ ''[p.'' @ d # w \<and> is_digit d) \<longrightarrow>
      (\<exists>r n. s = r @ replicate n CHR ''.'' \<and> \<not> suffix ''.'' r \<and>
         ensure_tag (tag_of sp ep) s =
           r @ '' [p.'' @ (if sp = ep then str_int sp else str_int sp @ ''-'' @ str_int ep) @ '']'')) \<and>
   points_of (''- Revenue grew 12%.'' @ [nl] @ ''Some non-bullet narration.'') text_in 3 3 =
     [''- Revenue grew 12% [p.3]'']"
proof (intro conjI impI)
  assume "\<exists>u d w. s = u @ ''[p.'' @ d # w \<and> is_digit d"
  then show "ensure_tag (tag_of sp ep) s = s"
    by (simp add: ensure_tag_def re_search_rx_tag)
next
  assume "\<not> (\<exists>u d w. s = u @ ''[p.'' @ d # w \<and> is_digit d)"
  then have "ensure_tag (tag_of sp ep) s = py_rstrip ''.'' s @ tag_of sp ep"
    by (simp only: ensure_tag_def re_search_rx_tag if_False)
  then have "ensure_tag (tag_of sp ep) s =
      py_rstrip ''.'' s @ '' [p.'' @ (if sp = ep then str_int sp else str_int sp @ ''-'' @ str_int ep) @ '']''"
    by (simp add: tag_of_def)
  with py_rstrip_dots [of s]
  show "\<exists>r n. s = r @ replicate n CHR ''.'' \<and> \<not> suffix ''.'' r \<and>
         ensure_tag (tag_of sp ep) s =
           r @ '' [p.'' @ (if sp = ep then str_int sp else str_int sp @ ''-'' @ str_int ep) @ '']''"
    by blast
next
  show "points_of (''- Revenue grew 12%.'' @ [nl] @ ''Some non-bullet narration.'') text_in 3 3 =
     [''- Revenue grew 12% [p.3]'']"
    by (simp only: points_of_def Let_def bullets_example tag_example list.map if_False list.distinct)
qed

lemma no_tag_example: "\<not> re_search rx_tag ''- Done..''"
  by code_simp

theorem ensure_tag_behaviour_witness:
  "ensure_tag (tag_of 3 3) ''- See [p.4] now.'' = ''- See [p.4] now.'' \<and>
   (\<exists>r n. ''- Done..'' = r @ replicate n CHR ''.'' \<and> \<not> suffix ''.'' r \<and>
      ensure_tag (tag_of 3 3) ''- Done..'' = r @ '' [p.'' @ str_int 3 @ '']'')"
proof -
  have "''- See [p.4] now.'' = ''- See '' @ ''[p.'' @ CHR ''4'' # ''] now.'' \<and> is_digit CHR ''4''"
    by (simp add: is_digit_def code_point_def)
  then have a: "\<exists>u d w. ''- See [p.4] now.'' = u @ ''[p.'' @ d # w \<and> is_digit d"
    by blast
  have b: "\<not> (\<exists>u d w. ''- Done..'' = u @ ''[p.'' @ d # w \<and> is_digit d)"
    using no_tag_example unfolding re_search_rx_tag .
  from ensure_tag_behaviour [of "''- See [p.4] now.''" 3 3] a
  have 1: "ensure_tag (tag_of 3 3) ''- See [p.4] now.'' = ''- See [p.4] now.''"
    by blast
  from ensure_tag_behaviour [of "''- Done..''" 3 3] b
  have 2: "\<exists>r n. ''- Done..'' = r @ replicate n CHR ''.'' \<and> \<not> suffix ''.'' r \<and>
      ensure_tag (tag_of 3 3) ''- Done..'' =
        r @ '' [p.'' @ (if (3::int) = 3 then str_int 3 else str_int 3 @ ''-'' @ str_int 3) @ '']''"
    by blast
  from 1 2 show ?thesis
    by simp
qed

section \<open>Fallback sentences\<close>

lemma length_top_sentences: "length (top_sentences text k) \<le> k"
  by (simp add: top_sentences_def Let_def)

lemma ensure_tag_cases:
  "suffix tag (ensure_tag tag s) \<or> (re_search rx_tag s \<and> ensure_tag tag s = s)"
  by (simp add: ensure_tag_def suffix_def)

text \<open>
  Claim C4, as stated: the fallback runs exactly when no bullet is found, works on the
  chunk's text, returns at most 6 points, and every point it returns carries a page tag
  for the chunk's page range. The last part fails: the chunk texts built by
  \<open>chunk_pages\<close> contain the page markers \<open>[p.N]\<close>, a fallback sentence that includes
  one already matches the test of \<open>_ensure_tag\<close>, and it is returned without the tag of
  the chunk. For the two pages below, chunked with budget 3000 and no overlap, the chunk
  spans pages 1 to 2 and its only fallback point does not contain \<open>[p.1-2]\<close>.
\<close>

theorem fallback_tag_counterexample:
  "chunk_pages [(1, ''Revenue up 10% to $50M''), (2, ''Guidance raised for FY25'')] 3000 0 =
     Inr [(part_of (1, ''Revenue up 10% to $50M'') @ part_of (2, ''Guidance raised for FY25''),
           Some 1, Some 2)] \<and>
   extract_bullets [] = [] \<and>
   points_of []
     (py_strip (part_of (1, ''Revenue up 10% to $50M'') @ part_of (2, ''Guidance raised for FY25'')))
     1 2 =
     [''- [p.1] Revenue up 10% to $50M [p.2] Guidance raised for FY25''] \<and>
   tag_of 1 2 = '' [p.1-2]'' \<and>
   \<not> py_in ''[p.1-2]'' ''- [p.1] Revenue up 10% to $50M [p.2] Guidance raised for FY25'' \<and>
   summarise_chunks (\<lambda>n p. Returned ''Revenue and guidance both improved'') ''{{TEXT}}''
     [(part_of (1, ''Revenue up 10% to $50M'') @ part_of (2, ''Guidance raised for FY25''), 1, 2)] =
     Some ([''- [p.1] Revenue up 10% to $50M [p.2] Guidance raised for FY25''],
           [py_strip (part_of (1, ''Revenue up 10% to $50M'') @
                      part_of (2, ''Guidance raised for FY25''))])"
  by code_simp

lemma points_of_cases:
  "points_of raw text_in sp ep =
     map (ensure_tag (tag_of sp ep))
       (if extract_bullets raw = [] then top_sentences text_in 6 else extract_bullets raw) \<and>
   (extract_bullets raw = [] \<longrightarrow>
      length (points_of raw text_in sp ep) \<le> 6 \<and>
      (\<forall>p\<in>set (points_of raw text_in sp ep).
         suffix (tag_of sp ep) p \<or>
         (p \<in> set (top_sentences text_in 6) \<and>
          (\<exists>u d w. p = u @ ''[p.'' @ d # w \<and> is_digit d))))"
proof (intro conjI impI)
  show "points_of raw text_in sp ep =
     map (ensure_tag (tag_of sp ep))
       (if extract_bullets raw = [] then top_sentences text_in 6 else extract_bullets raw)"
    by (simp add: points_of_def Let_def)
next
  assume e: "extract_bullets raw = []"
  then have p: "points_of raw text_in sp ep = map (ensure_tag (tag_of sp ep)) (top_sentences text_in 6)"
    by (simp add: points_of_def Let_def)
  show "length (points_of raw text_in sp ep) \<le> 6"
    by (simp add: p length_top_sentences)
  show "\<forall>p\<in>set (points_of raw text_in sp ep).
         suffix (tag_of sp ep) p \<or>
         (p \<in> set (top_sentences text_in 6) \<and>
          (\<exists>u d w. p = u @ ''[p.'' @ d # w \<and> is_digit d))"
  proof
    fix q assume "q \<in> set (points_of raw text_in sp ep)"
    then obtain s where s: "s \<in> set (top_sentences text_in 6)" and q: "q = ensure_tag (tag_of sp ep) s"
      unfolding p by auto
    from ensure_tag_cases [of "tag_of sp ep" s]
    show "suffix (tag_of sp ep) q \<or>
         (q \<in> set (top_sentences text_in 6) \<and>
          (\<exists>u d w. q = u @ ''[p.'' @ d # w \<and> is_digit d))"
      using s q re_search_rx_tag by auto
  qed
qed

text \<open>
  Claim C4, amended: for every chunk with a non-blank text whose backend call leaves a raw
  output (a returned string, or the empty string for \<open>None\<close> or a caught exception), the
  loop appends the tagged bullets of the raw output when there is at least one, and
  otherwise the tagged fallback sentences of the chunk's stripped text, in which the raw
  output plays no part. In the second case there are at most 6 points, and each ends with
  the tag for the chunk's page range or is a fallback sentence that already contains
  \<open>[p.\<close> followed by a digit and is returned unchanged.
\<close>

theorem fallback_points:
  assumes "py_strip chunk_text \<noteq> []"
    and "raw_of (client (length calls) (format_prompt template (py_strip chunk_text) sp ep)) =
         Some raw"
  shows "summarise_loop client template ((chunk_text, sp, ep) # rest) (bullets, calls) =
           summarise_loop client template rest
             (bullets @ map (ensure_tag (tag_of sp ep))
                (if extract_bullets raw = [] then top_sentences (py_strip chunk_text) 6
                 else extract_bullets raw),
              calls @ [format_prompt template (py_strip chunk_text) sp ep]) \<and>
         (extract_bullets raw = [] \<longrightarrow>
            length (map (ensure_tag (tag_of sp ep)) (top_sentences (py_strip chunk_text) 6)) \<le> 6 \<and>
            (\<forall>p\<in>set (map (ensure_tag (tag_of sp ep)) (top_sentences (py_strip chunk_text) 6)).
               suffix (tag_of sp ep) p \<or>
               (p \<in> set (top_sentences (py_strip chunk_text) 6) \<and>
                (\<exists>u d w. p = u @ ''[p.'' @ d # w \<and> is_digit d))))"
proof (intro conjI impI)
  show "summarise_loop client template ((chunk_text, sp, ep) # rest) (bullets, calls) =
           summarise_loop client template rest
             (bullets @ map (ensure_tag (tag_of sp ep))
                (if extract_bullets raw = [] then top_sentences (py_strip chunk_text) 6
                 else extract_bullets raw),
              calls @ [format_prompt template (py_strip chunk_text) sp ep])"
    using assms by (simp add: Let_def points_of_def)
next
  assume e: "extract_bullets raw = []"
  then have p: "points_of raw (py_strip chunk_text) sp ep =
      map (ensure_tag (tag_of sp ep)) (top_sentences (py_strip chunk_text) 6)"
    by (simp add: points_of_def Let_def)
  note c = points_of_cases [of raw "py_strip chunk_text" sp ep]
  from c e show "length (map (ensure_tag (tag_of sp ep)) (top_sentences (py_strip chunk_text) 6)) \<le> 6"
    unfolding p by blast
  from c e show "\<forall>p\<in>set (map (ensure_tag (tag_of sp ep)) (top_sentences (py_strip chunk_text) 6)).
               suffix (tag_of sp ep) p \<or>
               (p \<in> set (top_sentences (py_strip chunk_text) 6) \<and>
                (\<exists>u d w. p = u @ ''[p.'' @ d # w \<and> is_digit d))"
    unfolding p by blast
qed

lemma fallback_example:
  "py_strip ''Sales rose 5%. Costs fell.'' = ''Sales rose 5%. Costs fell.'' \<and>
   format_prompt ''{{TEXT}}'' ''Sales rose 5%. Costs fell.'' 2 2 = ''Sales rose 5%. Costs fell.'' \<and>
   extract_bullets ''The quarter went well overall.'' = [] \<and>
   map (ensure_tag (tag_of 2 2)) (top_sentences ''Sales rose 5%. Costs fell.'' 6) =
     [''- Sales rose 5% [p.2]'', ''- Costs fell [p.2]'']"
  by code_simp

theorem fallback_points_witness:
  "extract_bullets ''The quarter went well overall.'' = [] \<and>
   summarise_loop (\<lambda>n p. Returned ''The quarter went well overall.'') ''{{TEXT}}''
     [(''Sales rose 5%. Costs fell.'', 2, 2)] ([], []) =
     Some ([''- Sales rose 5% [p.2]'', ''- Costs fell [p.2]''], [''Sales rose 5%. Costs fell.'']) \<and>
   (suffix (tag_of 2 2) ''- Sales rose 5% [p.2]'' \<or>
    ''- Sales rose 5% [p.2]'' \<in> set (top_sentences ''Sales rose 5%. Costs fell.'' 6) \<and>
    (\<exists>u d w. ''- Sales rose 5% [p.2]'' = u @ ''[p.'' @ d # w \<and> is_digit d)) \<and>
   (suffix (tag_of 2 2) ''- Costs fell [p.2]'' \<or>
    ''- Costs fell [p.2]'' \<in> set (top_sentences ''Sales rose 5%. Costs fell.'' 6) \<and>
    (\<exists>u d w. ''- Costs fell [p.2]'' = u @ ''[p.'' @ d # w \<and> is_digit d))"
proof -
  let ?C = "(\<lambda>n p. Returned ''The quarter went well overall.'') :: backend"
  let ?x = "''Sales rose 5%. Costs fell.''"
  note ex = fallback_example
  have h1: "py_strip ?x \<noteq> []"
    using ex by simp
  have h2: "raw_of (?C (length ([] :: string list)) (format_prompt ''{{TEXT}}'' (py_strip ?x) 2 2)) =
      Some ''The quarter went well overall.''"
    by (simp add: raw_of_def)
  note t = fallback_points
    [where client = "?C" and template = "''{{TEXT}}''" and chunk_text = "?x"
       and sp = 2 and ep = 2 and calls = "[]" and rest = "[]" and bullets = "[]"
       and raw = "''The quarter went well overall.''", OF h1 h2]
  from t have "summarise_loop ?C ''{{TEXT}}'' [(?x, 2, 2)] ([], []) =
      summarise_loop ?C ''{{TEXT}}'' []
        ([] @ map (ensure_tag (tag_of 2 2))
           (if extract_bullets ''The quarter went well overall.'' = []
            then top_sentences (py_strip ?x) 6
            else extract_bullets ''The quarter went well overall.''),
         [] @ [format_prompt ''{{TEXT}}'' (py_strip ?x) 2 2])"
    by (rule conjunct1)
  also have "\<dots> = Some ([''- Sales rose 5% [p.2]'', ''- Costs fell [p.2]''], [?x])"
    by (simp add: ex)
  finally have a: "summarise_loop ?C ''{{TEXT}}'' [(?x, 2, 2)] ([], []) =
      Some ([''- Sales rose 5% [p.2]'', ''- Costs fell [p.2]''], [?x])" .
  from t ex have "\<forall>p\<in>set (map (ensure_tag (tag_of 2 2)) (top_sentences (py_strip ?x) 6)).
      suffix (tag_of 2 2) p \<or>
      (p \<in> set (top_sentences (py_strip ?x) 6) \<and>
       (\<exists>u d w. p = u @ ''[p.'' @ d # w \<and> is_digit d))"
    by blast
  then have b: "\<forall>p\<in>set [''- Sales rose 5% [p.2]'', ''- Costs fell [p.2]''].
      suffix (tag_of 2 2) p \<or>
      (p \<in> set (top_sentences ?x 6) \<and>
       (\<exists>u d w. p = u @ ''[p.'' @ d # w \<and> is_digit d))"
    by (simp only: ex)
  have m: "''- Sales rose 5% [p.2]'' \<in> set [''- Sales rose 5% [p.2]'', ''- Costs fell [p.2]'']"
    "''- Costs fell [p.2]'' \<in> set [''- Sales rose 5% [p.2]'', ''- Costs fell [p.2]'']"
    by simp_all
  from a m [THEN bspec [OF b]] ex show ?thesis
    by blast
qed

section \<open>Ranking\<close>

lemma filter_py_sort_reverse:
  "filter (\<lambda>x. key x = k) (py_sort_reverse key xs) = filter (\<lambda>x. key x = k) xs"
proof -
  have "filter (\<lambda>x. key x = k) (py_sort_reverse key xs) =
        rev (filter (\<lambda>x. key x = k) (sort_key key (rev xs)))"
    by (simp add: py_sort_reverse_def rev_filter)
  also have "\<dots> = rev (filter (\<lambda>x. key x = k) (rev xs))"
    by (simp only: sort_key_stable)
  also have "\<dots> = filter (\<lambda>x. key x = k) xs"
    by (simp add: rev_filter)
  finally show ?thesis .
qed

lemma sorted_py_sort_reverse: "sorted (rev (map key (py_sort_reverse key xs)))"
  by (simp add: py_sort_reverse_def rev_map)

text \<open>
  Claim C9: the ranked list is sorted by score in descending order, and for every score
  the points with that score appear in the ranked list in the order in which they appear
  in the input.
\<close>

theorem rank_points_stable:
  "sorted (rev (map snd (rank_points raw))) \<and>
   filter (\<lambda>x. snd x = v) (rank_points raw) =
   filter (\<lambda>x. snd x = v)
     (map (\<lambda>p. (p, score_value p)) (map py_strip (filter (\<lambda>ln. py_strip ln \<noteq> []) raw)))"
  unfolding rank_points_def Let_def
  by (simp only: sorted_py_sort_reverse filter_py_sort_reverse simp_thms)

section \<open>Scoring\<close>

lemma scan_Nil: "scan r b [] = ([], [])"
  by (simp add: scan.simps)

lemma scan_nomatch:
  "r (b, c # cs) = [] \<Longrightarrow> scan r b (c # cs) = push_char c (scan r (c # b) cs)"
  by (subst scan.simps) simp

lemma scan_match:
  "r (b, c # cs) = (b', s') # es \<Longrightarrow> length s' \<le> length cs \<Longrightarrow>
   scan r b (c # cs) =
     (([], take (Suc (length cs) - length s') (c # cs)) # fst (scan r b' s'), snd (scan r b' s'))"
  by (subst scan.simps) (simp add: Let_def)

lemma length_push_char: "length (fst (push_char c x)) = length (fst x)"
  by (cases x) (auto simp add: push_char_def split: list.splits)

lemma match_count_Nil: "match_count r b [] = 0"
  by (simp add: match_count_def scan_Nil)

lemma match_count_nomatch:
  "r (b, c # cs) = [] \<Longrightarrow> match_count r b (c # cs) = match_count r (c # b) cs"
  by (simp add: match_count_def scan_nomatch length_push_char)

lemma match_count_match:
  "r (b, c # cs) = (b', s') # es \<Longrightarrow> length s' \<le> length cs \<Longrightarrow>
   match_count r b (c # cs) = Suc (match_count r b' s')"
  by (simp add: match_count_def scan_match)

lemma length_re_findall: "length (re_findall r s) = match_count r [] s"
  by (simp add: re_findall_def match_count_def)

lemma star_greedy_filter:
  assumes "\<And>b' c' cs'. P c' \<Longrightarrow> r2 (b', c' # cs') = []"
  shows "concat (map r2 (star_greedy P b s)) = r2 (rev (takeWhile P s) @ b, dropWhile P s)"
proof (induction s arbitrary: b)
  case Nil
  show ?case by simp
next
  case (Cons c cs)
  show ?case
    using Cons [of "c # b"] assms by simp
qed

lemma rx_plus_then:
  assumes "\<And>b' c' cs'. P c' \<Longrightarrow> r2 (b', c' # cs') = []"
  shows "rx_seq (rx_plus P) r2 (b, s) =
     (case s of [] \<Rightarrow> []
      | c # cs \<Rightarrow> if P c then r2 (rev (takeWhile P cs) @ c # b, dropWhile P cs) else [])"
proof (cases s)
  case Nil
  then show ?thesis
    by (simp add: rx_seq_def rx_plus_def rx_class_def)
next
  case (Cons c cs)
  show ?thesis
    using star_greedy_filter [of P r2 "c # b" cs, OF assms]
    by (simp add: Cons rx_seq_def rx_plus_def rx_class_def rx_star_def)
qed

lemma star_greedy_hd:
  "\<exists>es. star_greedy P b s = (rev (takeWhile P s) @ b, dropWhile P s) # es"
proof (induction s arbitrary: b)
  case Nil
  show ?case by simp
next
  case (Cons c cs)
  from Cons [of "c # b"] show ?case by auto
qed

lemma rx_plus_hd:
  "rx_plus P (b, s) =
     (case s of [] \<Rightarrow> [] | c # cs \<Rightarrow> if P c then star_greedy P (c # b) cs else [])"
  by (simp add: rx_plus_def rx_seq_class rx_star_def split: list.splits)

lemma digit_not:
  "is_digit c \<Longrightarrow> c \<noteq> CHR ''%'' \<and> c \<noteq> CHR ''+'' \<and> c \<noteq> CHR ''-'' \<and> c \<noteq> CHR ''p'' \<and> c \<noteq> CHR ''$''"
  by (auto simp add: is_digit_def code_point_def)

lemma rx_chr_case:
  "rx_chr a (b, s) = (case s of [] \<Rightarrow> [] | c # cs \<Rightarrow> if c = a then [(c # b, cs)] else [])"
  by (simp add: rx_chr_def rx_class_case)

lemma runs_after_digit:
  "runs_from True cs = runs_from False (dropWhile is_digit cs)"
  by (induction cs) simp_all

lemma number_count: "match_count rx_number b s = runs_from False s"
proof (induction "length s" arbitrary: b s rule: less_induct)
  case less
  show ?case
  proof (cases s)
    case Nil
    then show ?thesis by (simp add: match_count_Nil)
  next
    case (Cons c cs)
    show ?thesis
    proof (cases "is_digit c")
      case False
      then have "rx_number (b, c # cs) = []"
        by (simp add: rx_number_def rx_plus_hd)
      then have "match_count rx_number b (c # cs) = match_count rx_number (c # b) cs"
        by (rule match_count_nomatch)
      also have "\<dots> = runs_from False cs"
        using less [of cs "c # b"] Cons by simp
      finally show ?thesis
        using False Cons by simp
    next
      case True
      obtain es where "star_greedy is_digit (c # b) cs =
          (rev (takeWhile is_digit cs) @ c # b, dropWhile is_digit cs) # es"
        using star_greedy_hd by blast
      then have m: "rx_number (b, c # cs) =
          (rev (takeWhile is_digit cs) @ c # b, dropWhile is_digit cs) # es"
        using True by (simp add: rx_number_def rx_plus_hd)
      have l: "length (dropWhile is_digit cs) \<le> length cs"
        by (rule length_dropWhile_le)
      have "match_count rx_number b (c # cs) =
          Suc (match_count rx_number (rev (takeWhile is_digit cs) @ c # b) (dropWhile is_digit cs))"
        by (rule match_count_match [where r = rx_number and b = b and c = c and cs = cs, OF m l])
      also have "\<dots> = Suc (runs_from False (dropWhile is_digit cs))"
        using less [of "dropWhile is_digit cs"] l Cons by simp
      finally show ?thesis
        using True Cons by (simp add: runs_after_digit)
    qed
  qed
qed

lemma pp_after_digits:
  "rx_seq (rx_plus is_digit) (rx_seq (rx_chr CHR ''p'') (rx_chr CHR ''p'')) (b, s) =
     (case s of [] \<Rightarrow> []
      | c # cs \<Rightarrow>
          if is_digit c
          then rx_seq (rx_chr CHR ''p'') (rx_chr CHR ''p'')
                 (rev (takeWhile is_digit cs) @ c # b, dropWhile is_digit cs)
          else [])"
  by (rule rx_plus_then) (simp add: rx_seq_chr digit_not)

lemma pct_after_digits:
  "rx_seq (rx_plus is_digit) (rx_chr CHR ''%'') (b, s) =
     (case s of [] \<Rightarrow> []
      | c # cs \<Rightarrow>
          if is_digit c
          then rx_chr CHR ''%'' (rev (takeWhile is_digit cs) @ c # b, dropWhile is_digit cs)
          else [])"
  by (rule rx_plus_then) (simp add: rx_chr_case digit_not)

lemma pp_case:
  "rx_seq (rx_chr CHR ''p'') (rx_chr CHR ''p'') (b, s) =
     (if prefix ''pp'' s then [(CHR ''p'' # CHR ''p'' # b, drop 2 s)] else [])"
  by (auto simp add: rx_seq_chr rx_chr_case split: list.splits)

lemma pp_after_digits_case:
  "rx_seq (rx_plus is_digit) (rx_seq (rx_chr CHR ''p'') (rx_chr CHR ''p'')) (b, s) =
     (case s of [] \<Rightarrow> []
      | c # cs \<Rightarrow>
          if is_digit c \<and> prefix ''pp'' (dropWhile is_digit cs)
          then [(CHR ''p'' # CHR ''p'' # rev (takeWhile is_digit cs) @ c # b,
                 drop 2 (dropWhile is_digit cs))]
          else [])"
  unfolding pp_after_digits by (simp add: pp_case split: list.splits)

lemma rx_seq_chr_Cons:
  "rx_seq (rx_chr a) r (b, c # cs) = (if c = a then r (c # b, cs) else [])"
  by (simp add: rx_seq_chr)

lemma signed_pp_case:
  "rx_seq (rx_chr a) (rx_seq (rx_plus is_digit) (rx_seq (rx_chr CHR ''p'') (rx_chr CHR ''p''))) (b, c # cs) =
     (if c = a \<and> takeWhile is_digit cs \<noteq> [] \<and> prefix ''pp'' (dropWhile is_digit cs)
      then [(CHR ''p'' # CHR ''p'' # rev (takeWhile is_digit cs) @ c # b,
             drop 2 (dropWhile is_digit cs))]
      else [])"
proof (cases cs)
  case Nil
  then show ?thesis
    by (simp add: rx_seq_chr_Cons pp_after_digits_case)
next
  case (Cons d ds)
  then show ?thesis
    by (simp add: rx_seq_chr_Cons pp_after_digits_case)
qed

lemma rx_percent_digit:
  "is_digit c \<Longrightarrow>
   rx_percent (b, c # cs) =
     rx_chr CHR ''%'' (rev (takeWhile is_digit cs) @ c # b, dropWhile is_digit cs)"
  using digit_not [of c]
  by (simp add: rx_percent_def rx_alt_def pct_after_digits signed_pp_case)

lemma rx_percent_nondigit:
  "\<not> is_digit c \<Longrightarrow>
   rx_percent (b, c # cs) =
     (if (c = CHR ''+'' \<or> c = CHR ''-'') \<and> takeWhile is_digit cs \<noteq> [] \<and>
         prefix ''pp'' (dropWhile is_digit cs)
      then [(CHR ''p'' # CHR ''p'' # rev (takeWhile is_digit cs) @ c # b,
             drop 2 (dropWhile is_digit cs))]
      else [])"
  by (simp add: rx_percent_def rx_alt_def pct_after_digits signed_pp_case)

lemma pct_end_None:
  "(case r of [] \<Rightarrow> None | x # xs \<Rightarrow> if x = CHR ''%'' then Some xs else None) = None \<Longrightarrow>
   rx_chr CHR ''%'' (b', r) = []"
  by (cases r) (simp_all add: rx_chr_case split: if_splits)

lemma pct_end_Some:
  "(case r of [] \<Rightarrow> None | x # xs \<Rightarrow> if x = CHR ''%'' then Some xs else None) = Some t \<Longrightarrow>
   rx_chr CHR ''%'' (b', r) = [(CHR ''%'' # b', t)]"
  by (cases r) (simp_all add: rx_chr_case split: if_splits)

lemma rx_percent_None: "percent_rest s = None \<Longrightarrow> rx_percent (b, s) = []"
proof (cases s)
  case Nil
  then show ?thesis
    by (simp add: rx_percent_def rx_alt_def pct_after_digits rx_seq_chr)
next
  case (Cons c cs)
  assume n: "percent_rest s = None"
  show ?thesis
  proof (cases "is_digit c")
    case True
    with n Cons show ?thesis
      by (simp add: rx_percent_digit pct_end_None)
  next
    case False
    with n Cons show ?thesis
      by (simp add: rx_percent_nondigit split: if_splits)
  qed
qed

lemma rx_percent_Some:
  "percent_rest s = Some r \<Longrightarrow> \<exists>b' es. rx_percent (b, s) = (b', r) # es"
proof (cases s)
  case Nil
  assume "percent_rest s = Some r"
  with Nil show ?thesis by simp
next
  case (Cons c cs)
  assume n: "percent_rest s = Some r"
  show ?thesis
  proof (cases "is_digit c")
    case True
    with n Cons show ?thesis
      by (simp add: rx_percent_digit pct_end_Some)
  next
    case False
    with n Cons show ?thesis
      by (simp add: rx_percent_nondigit split: if_splits)
  qed
qed

lemma percent_no_start:
  "s = [] \<or> hd s \<noteq> CHR ''%'' \<Longrightarrow> percent_from p s = percent_from q s"
  by (cases s) auto

lemma percent_skip_digits:
  "percent_from p s =
     percent_from (p \<or> takeWhile is_digit s \<noteq> []) (dropWhile is_digit s)"
proof (induction s arbitrary: p)
  case Nil
  show ?case by simp
next
  case (Cons c cs)
  show ?case
    using Cons [of True] digit_not [of c] by simp
qed

lemma signed_skip_digits: "signed_pp s = signed_pp (dropWhile is_digit s)"
proof (induction s)
  case Nil
  show ?case by simp
next
  case (Cons c cs)
  show ?case
    using Cons digit_not [of c] by simp
qed

lemma percent_rest_length: "percent_rest (c # cs) = Some r \<Longrightarrow> length r \<le> length cs"
proof -
  assume a: "percent_rest (c # cs) = Some r"
  have l: "length (dropWhile is_digit cs) \<le> length cs"
    by (rule length_dropWhile_le)
  show ?thesis
  proof (cases "is_digit c")
    case True
    with a obtain x where "dropWhile is_digit cs = x # r"
      by (auto split: list.splits if_splits)
    with l show ?thesis by simp
  next
    case False
    with a have "r = drop 2 (dropWhile is_digit cs)"
      by (auto split: if_splits)
    with l show ?thesis by simp
  qed
qed

lemma percent_spec_step:
  "percent_from False (c # cs) + signed_pp (c # cs) =
     (case percent_rest (c # cs) of
        None \<Rightarrow> percent_from False cs + signed_pp cs
      | Some r \<Rightarrow> Suc (percent_from False r + signed_pp r))"
proof (cases "is_digit c")
  case True
  note d = digit_not [OF True]
  define r where "r = dropWhile is_digit cs"
  have pr: "percent_rest (c # cs) =
      (case r of [] \<Rightarrow> None | x # xs \<Rightarrow> if x = CHR ''%'' then Some xs else None)"
    using True by (simp add: r_def)
  have lhs: "percent_from False (c # cs) + signed_pp (c # cs) =
      percent_from True cs + signed_pp cs"
    using True d by simp
  have p1: "percent_from True cs = percent_from True r"
    using percent_skip_digits [of True cs] by (simp add: r_def)
  obtain q where p0: "percent_from False cs = percent_from q r"
    using percent_skip_digits [of False cs] by (simp add: r_def)
  have s1: "signed_pp cs = signed_pp r"
    using signed_skip_digits [of cs] by (simp add: r_def)
  have np: "\<not> is_digit CHR ''%''"
    by (simp add: is_digit_def code_point_def)
  show ?thesis
  proof (cases r)
    case Nil
    then show ?thesis
      unfolding lhs pr p1 p0 by simp
  next
    case (Cons x xs)
    show ?thesis
    proof (cases "x = CHR ''%''")
      case True
      then show ?thesis
        unfolding lhs pr p1 s1 using Cons np by simp
    next
      case False
      then have "percent_from True r = percent_from q r"
        using Cons by (simp add: percent_no_start)
      then show ?thesis
        unfolding lhs pr p1 p0 using Cons False by simp
    qed
  qed
next
  case False
  show ?thesis
  proof (cases "(c = CHR ''+'' \<or> c = CHR ''-'') \<and> takeWhile is_digit cs \<noteq> [] \<and>
                prefix ''pp'' (dropWhile is_digit cs)")
    case True
    then obtain r where r: "dropWhile is_digit cs = CHR ''p'' # CHR ''p'' # r"
      by (auto simp add: prefix_def)
    have "percent_from False cs = percent_from True (CHR ''p'' # CHR ''p'' # r)"
      using percent_skip_digits [of False cs] True r by simp
    moreover have "signed_pp cs = signed_pp (CHR ''p'' # CHR ''p'' # r)"
      using signed_skip_digits [of cs] r by simp
    moreover have "\<not> is_digit CHR ''p''"
      by (simp add: is_digit_def code_point_def)
    ultimately show ?thesis
      using False True r by simp
  next
    case nm: False
    then show ?thesis
      using False by auto
  qed
qed

lemma percent_count:
  "match_count rx_percent b s = percent_from False s + signed_pp s"
proof (induction "length s" arbitrary: b s rule: less_induct)
  case less
  show ?case
  proof (cases s)
    case Nil
    then show ?thesis by (simp add: match_count_Nil)
  next
    case (Cons c cs)
    show ?thesis
    proof (cases "percent_rest (c # cs)")
      case None
      then have "rx_percent (b, c # cs) = []"
        by (rule rx_percent_None)
      then have "match_count rx_percent b (c # cs) = match_count rx_percent (c # b) cs"
        by (rule match_count_nomatch)
      also have "\<dots> = percent_from False cs + signed_pp cs"
        using less [of cs "c # b"] Cons by simp
      finally show ?thesis
        unfolding Cons percent_spec_step [of c cs] using None by simp
    next
      case (Some r)
      then obtain b' es where m: "rx_percent (b, c # cs) = (b', r) # es"
        using rx_percent_Some by blast
      have l: "length r \<le> length cs"
        using Some by (rule percent_rest_length)
      have "match_count rx_percent b (c # cs) = Suc (match_count rx_percent b' r)"
        by (rule match_count_match [where r = rx_percent and b = b and c = c and cs = cs, OF m l])
      also have "\<dots> = Suc (percent_from False r + signed_pp r)"
        using less [of r b'] l Cons by simp
      finally show ?thesis
        unfolding Cons percent_spec_step [of c cs] using Some by simp
    qed
  qed
qed

lemma rx_currency_iff:
  "rx_currency (b, v) \<noteq> [] \<longleftrightarrow> (\<exists>d w. v = CHR ''$'' # d # w \<and> is_digit d)"
proof -
  have s: "\<And>b s. star_greedy is_digit b s \<noteq> []"
    using star_greedy_hd by (metis list.distinct(1))
  show ?thesis
    by (auto simp add: rx_currency_def rx_seq_chr rx_plus_hd s split: list.splits if_splits)
qed

lemma re_search_rx_currency:
  "re_search rx_currency s \<longleftrightarrow> (\<exists>u d v. s = u @ CHR ''$'' # d # v \<and> is_digit d)"
  unfolding re_search_iff rx_currency_iff by blast

lemma py_in_iff: "py_in k s \<longleftrightarrow> (\<exists>u v. s = u @ k @ v)"
proof (induction s)
  case Nil
  show ?case by auto
next
  case (Cons c cs)
  show ?case
  proof
    assume "py_in k (c # cs)"
    then consider "prefix k (c # cs)" | "py_in k cs" by auto
    then show "\<exists>u v. c # cs = u @ k @ v"
    proof cases
      case 1
      then obtain v where "c # cs = [] @ k @ v" by (auto simp add: prefix_def)
      then show ?thesis by blast
    next
      case 2
      then obtain u v where "cs = u @ k @ v" using Cons by blast
      then have "c # cs = (c # u) @ k @ v" by simp
      then show ?thesis by blast
    qed
  next
    assume "\<exists>u v. c # cs = u @ k @ v"
    then obtain u v where e: "c # cs = u @ k @ v" by blast
    show "py_in k (c # cs)"
    proof (cases u)
      case Nil
      with e have "prefix k (c # cs)"
        by (metis append_Nil prefixI)
      then show ?thesis by simp
    next
      case (Cons a u')
      then have "cs = u' @ k @ v" using e by simp
      then have "py_in k cs" using Cons.IH by blast
      then show ?thesis by simp
    qed
  qed
qed

lemma py_in_lower_iff:
  "py_in k (py_lower s) \<longleftrightarrow> (\<exists>u w v. s = u @ w @ v \<and> py_lower w = k)"
proof
  assume "py_in k (py_lower s)"
  then obtain u' v' where "map lower_char s = u' @ (k @ v')"
    unfolding py_in_iff py_lower_def by auto
  then have "\<exists>u t. s = u @ t \<and> u' = map lower_char u \<and> k @ v' = map lower_char t"
    by (simp only: map_eq_append_conv)
  then obtain u t where s: "s = u @ t" and t: "k @ v' = map lower_char t"
    by blast
  from t have "\<exists>w v. t = w @ v \<and> k = map lower_char w \<and> v' = map lower_char v"
    by (simp only: append_eq_map_conv)
  then obtain w v where "t = w @ v" "map lower_char w = k"
    by auto
  with s show "\<exists>u w v. s = u @ w @ v \<and> py_lower w = k"
    unfolding py_lower_def by blast
next
  assume "\<exists>u w v. s = u @ w @ v \<and> py_lower w = k"
  then obtain u w v where "s = u @ w @ v" "py_lower w = k" by blast
  then have "py_lower s = py_lower u @ k @ py_lower v"
    by (simp add: py_lower_def)
  then show "py_in k (py_lower s)"
    unfolding py_in_iff by blast
qed

lemma score_examples:
  "score_value ''Revenue grew 15% to $2.3M, up 8pp YoY'' = 55 \<and>
   score_value ''Things were fine this quarter'' = 0"
  by code_simp

lemma code_in_table: "(of_char c :: nat) \<in> set (map of_char cs) \<Longrightarrow> c \<in> set cs"
  by auto

lemma spec_is_digit_iff: "spec_is_digit c \<longleftrightarrow> is_digit c"
proof
  assume "spec_is_digit c"
  then show "is_digit c"
    by (auto simp add: spec_is_digit_def is_digit_def code_point_def)
next
  assume "is_digit c"
  then have "(of_char c :: nat) \<in> set (map of_char ''0123456789'')"
    unfolding is_digit_def code_point_def by simp arith
  then show "spec_is_digit c"
    unfolding spec_is_digit_def by (rule code_in_table)
qed

lemma in_zip_codes:
  "(c, d) \<in> set (zip xs ys) \<longleftrightarrow>
   (of_char c :: nat, of_char d :: nat) \<in> set (zip (map of_char xs) (map of_char ys))"
proof -
  let ?f = "\<lambda>p :: char \<times> char. (of_char (fst p) :: nat, of_char (snd p) :: nat)"
  have e: "zip (map of_char xs) (map of_char ys) = map ?f (zip xs ys)"
    by (simp add: zip_map_map case_prod_unfold)
  have inj: "inj ?f"
    by (auto simp add: inj_def prod_eq_iff)
  show ?thesis
    using inj_image_mem_iff [OF inj, of "(c, d)" "set (zip xs ys)"] by (simp add: e)
qed

lemma upper_lower_codes:
  "zip (map of_char ''ABCDEFGHIJKLMNOPQRSTUVWXYZ'') (map of_char ''abcdefghijklmnopqrstuvwxyz'') =
     map (\<lambda>k. (k, k + 32)) [65..<91 :: nat]"
  "zip (map of_char ''abcdefghijklmnopqrstuvwxyz'') (map of_char ''ABCDEFGHIJKLMNOPQRSTUVWXYZ'') =
     map (\<lambda>k. (k + 32, k)) [65..<91 :: nat]"
  by code_simp+

lemma in_upper_lower:
  "(n, m) \<in> set (map (\<lambda>k. (k, k + 32)) [65..<91 :: nat]) \<longleftrightarrow> 65 \<le> n \<and> n \<le> 90 \<and> m = n + 32"
  "(n, m) \<in> set (map (\<lambda>k. (k + 32, k)) [65..<91 :: nat]) \<longleftrightarrow> 65 \<le> m \<and> m \<le> 90 \<and> n = m + 32"
  unfolding set_map set_upt by auto

lemma spec_same_letter_codes:
  "spec_same_letter c d \<longleftrightarrow>
     c = d \<or>
     (65 \<le> code_point c \<and> code_point c \<le> 90 \<and> code_point d = code_point c + 32) \<or>
     (65 \<le> code_point d \<and> code_point d \<le> 90 \<and> code_point c = code_point d + 32)"
  unfolding spec_same_letter_def in_zip_codes upper_lower_codes in_upper_lower code_point_def
  by (rule refl)

lemma lower_char_code:
  "code_point (lower_char c) =
     (if is_upper_az c \<or> (192 \<le> code_point c \<and> code_point c \<le> 222 \<and> code_point c \<noteq> 215)
      then code_point c + 32 else code_point c)"
  by (auto simp add: lower_char_def code_point_def is_upper_az_def)

lemma char_eq_code: "c = d \<longleftrightarrow> code_point c = code_point d"
  by (simp add: code_point_def)

lemma lower_char_same_letter:
  assumes "(97 \<le> code_point d \<and> code_point d \<le> 122) \<or> code_point d = 32"
  shows "lower_char c = d \<longleftrightarrow> spec_same_letter c d"
proof -
  have "lower_char c = d \<longleftrightarrow> code_point (lower_char c) = code_point d"
    by (rule char_eq_code)
  also have "\<dots> \<longleftrightarrow> code_point c = code_point d \<or>
     (65 \<le> code_point c \<and> code_point c \<le> 90 \<and> code_point d = code_point c + 32)"
    using assms unfolding lower_char_code is_upper_az_def by auto
  also have "\<dots> \<longleftrightarrow> spec_same_letter c d"
    using assms unfolding spec_same_letter_codes char_eq_code [of c d] by auto
  finally show ?thesis .
qed

lemma py_lower_same_letters:
  "\<forall>d\<in>set k. plain_char d \<Longrightarrow> py_lower w = k \<longleftrightarrow> list_all2 spec_same_letter w k"
proof (induction w arbitrary: k)
  case Nil
  show ?case by (auto simp add: py_lower_def)
next
  case (Cons c w)
  show ?case
  proof (cases k)
    case Nil
    then show ?thesis by (simp add: py_lower_def)
  next
    case (Cons d k')
    with Cons.prems have d: "plain_char d" and k': "\<forall>d\<in>set k'. plain_char d"
      by simp_all
    have "lower_char c = d \<longleftrightarrow> spec_same_letter c d"
      using d unfolding plain_char_def by (rule lower_char_same_letter)
    moreover have "py_lower w = k' \<longleftrightarrow> list_all2 spec_same_letter w k'"
      using k' by (rule Cons.IH)
    ultimately show ?thesis
      using Cons by (simp add: py_lower_def)
  qed
qed

lemma spec_keywords_plain: "\<forall>k\<in>set spec_keywords. \<forall>d\<in>set k. plain_char d"
  by (simp add: spec_keywords_def plain_char_def code_point_def)

lemma kpis_spec_keywords: "kpis = spec_keywords"
  by (simp add: kpis_def spec_keywords_def)

lemma keyword_occurs:
  assumes "k \<in> set spec_keywords"
  shows "py_in k (py_lower s) \<longleftrightarrow> spec_occurs k s"
proof -
  from assms spec_keywords_plain have p: "\<forall>d\<in>set k. plain_char d"
    by blast
  have "\<And>w. py_lower w = k \<longleftrightarrow> list_all2 spec_same_letter w k"
    using p by (rule py_lower_same_letters)
  then show ?thesis
    unfolding py_in_lower_iff spec_occurs_def by simp
qed

lemma keyword_count:
  "length (filter (\<lambda>k. py_in k (py_lower s)) kpis) =
   card {k \<in> set spec_keywords. spec_occurs k s}"
proof -
  have d: "distinct spec_keywords"
    by (simp add: spec_keywords_def)
  have "{k \<in> set spec_keywords. spec_occurs k s} =
        {k. py_in k (py_lower s)} \<inter> set spec_keywords"
    by (auto simp add: keyword_occurs)
  then show ?thesis
    by (simp add: kpis_spec_keywords distinct_length_filter [OF d])
qed

lemma spec_is_digit_eq: "spec_is_digit = is_digit"
  by (rule ext) (rule spec_is_digit_iff)

lemma spec_runs_from_eq: "spec_runs_from p s = runs_from p s"
  by (induction s arbitrary: p) (simp_all add: spec_is_digit_iff)

lemma spec_percent_from_eq: "spec_percent_from p s = percent_from p s"
  by (induction s arbitrary: p) (simp_all add: spec_is_digit_iff)

lemma spec_signed_pp_eq: "spec_signed_pp s = signed_pp s"
  by (induction s) (simp_all add: spec_is_digit_eq)

text \<open>
  Claim C3: for every point text, \<open>score_value\<close> is the sum the specification describes:
  5 times the number of maximal digit runs capped at 5, 10 per match of \<open>N%\<close>, \<open>+Npp\<close>
  or \<open>-Npp\<close>, a flat 15 when some dollar sign is directly followed by a digit, and 5 per
  keyword of the specification's list that occurs as a case-insensitive substring. The
  sum is an integer, which rounding to one decimal leaves unchanged. The sentence with
  the revenue figures scores 55 and the sentence without signals scores 0, so the first
  score is the greater one.
\<close>

theorem score_value_spec:
  "score_value s = spec_score s \<and>
   score_value ''Revenue grew 15% to $2.3M, up 8pp YoY'' = 55 \<and>
   score_value ''Things were fine this quarter'' = 0 \<and>
   score_value ''Revenue grew 15% to $2.3M, up 8pp YoY'' >
   score_value ''Things were fine this quarter''"
proof -
  have "score_value s = spec_score s"
    by (simp add: score_value_def spec_score_def spec_digit_runs_def Let_def
        length_re_findall number_count percent_count re_search_rx_currency keyword_count
        spec_runs_from_eq spec_percent_from_eq spec_signed_pp_eq spec_is_digit_iff)
  with score_examples show ?thesis
    by simp
qed

end
